theory Spec2Isabelle
  imports Main "HOL-Library.Word" "HOL-Library.Multiset"
begin

section \<open>Page-blob upload of storage/blobs.go\<close>

subsection \<open>Machine integers\<close>

text \<open>
  Go's \<open>int64\<close> (and \<open>int\<close> on a 64-bit target) is modelled as \<open>int\<close> with the
  two's-complement wrap-around written out at every arithmetic operation of the source.
\<close>

definition int64 :: "int \<Rightarrow> bool" where
  "int64 x = (- (2 ^ 63) \<le> x \<and> x < 2 ^ 63)"

definition wrap64 :: "int \<Rightarrow> int" where
  "wrap64 x = (x + 2 ^ 63) mod 2 ^ 64 - 2 ^ 63"

definition add64 :: "int \<Rightarrow> int \<Rightarrow> int" where
  "add64 a b = wrap64 (a + b)"

definition sub64 :: "int \<Rightarrow> int \<Rightarrow> int" where
  "sub64 a b = wrap64 (a - b)"

definition mul64 :: "int \<Rightarrow> int \<Rightarrow> int" where
  "mul64 a b = wrap64 (a * b)"

text \<open>Go's \<open>%\<close> truncates towards zero: the remainder has the sign of the dividend.\<close>

definition rem64 :: "int \<Rightarrow> int \<Rightarrow> int" where
  "rem64 a b = sgn a * (\<bar>a\<bar> mod \<bar>b\<bar>)"

subsection \<open>Errors\<close>

text \<open>
  One constructor for each \<open>fmt.Errorf\<close> of the source, carrying the values that the
  format string prints; \<open>EOF\<close> is \<open>io.EOF\<close>, and \<open>External\<close> is any other error value
  handed back by the operating system or by the storage client.
\<close>

datatype error =
    EOF
  | External string
  | UnsupportedBlobType string
  | ErrorCopyWaiting error
  | ErrorPutBlockBlob error
  | ErrorOpening error
  | ErrorPutBlockBlobFromFile error
  | SizeCannotBeZero
  | ErrorPutPageBlob error
  | SizeCannotBeSet
  | ErrorOpeningSource string error
  | CouldNotStat string error
  | ErrorCreatingOnAzure error
  | ErrorSplitting string error
  | ErrorWhileUploading string error
  | CouldNotReadChunk int error
  | ErrorReadingSource string int error
  | ErrorWritingPage int string error

subsection \<open>Files and section readers\<close>

type_synonym byte = "8 word"

text \<open>
  An open file as the source uses it: its name, the outcome of \<open>Stat\<close>, its bytes, and
  the device faults: \<open>fault f off = Some s\<close> when a read at offset \<open>off\<close> fails with an
  error other than end-of-file.
\<close>

record File =
  Name :: string
  Stat :: "error + int"
  contents :: "byte list"
  fault :: "int \<Rightarrow> string option"

text \<open>
  \<open>ReadAt\<close> into a fresh (zeroed) buffer of \<open>n\<close> bytes: the buffer after the call and
  the error. Bytes that the file does not have stay zero, and a short read reports
  \<open>io.EOF\<close>. A negative offset is an error of \<open>os.File.ReadAt\<close>.
\<close>

definition ReadAt :: "File \<Rightarrow> nat \<Rightarrow> int \<Rightarrow> byte list \<times> error option" where
  "ReadAt f n off =
     (if off < 0 then (replicate n 0, Some (External ''negative offset''))
      else case fault f off of
        Some s \<Rightarrow> (replicate n 0, Some (External s))
      | None \<Rightarrow>
          (let d = take n (drop (nat off) (contents f))
           in (d @ replicate (n - length d) 0,
               if length d < n then Some EOF else None)))"

text \<open>\<open>io.SectionReader\<close> of the Go library, with its fields.\<close>

record SectionReader =
  sr_r :: File
  sr_base :: int
  sr_off :: int
  sr_limit :: int

definition maxint64 :: int where
  "maxint64 = 2 ^ 63 - 1"

definition NewSectionReader :: "File \<Rightarrow> int \<Rightarrow> int \<Rightarrow> SectionReader" where
  "NewSectionReader r off n =
     (let remaining = (if off \<le> sub64 maxint64 n then add64 n off else maxint64)
      in \<lparr>sr_r = r, sr_base = off, sr_off = off, sr_limit = remaining\<rparr>)"

definition sr_Size :: "SectionReader \<Rightarrow> int" where
  "sr_Size s = sub64 (sr_limit s) (sr_base s)"

text \<open>
  \<open>Read\<close> into a fresh buffer of \<open>n\<close> bytes, on a reader that nobody has read from
  yet: the buffer after the call and the error. The reader's new position is not kept,
  since every section is read once.
\<close>

definition sr_Read :: "SectionReader \<Rightarrow> nat \<Rightarrow> byte list \<times> error option" where
  "sr_Read s n =
     (if sr_off s \<ge> sr_limit s then (replicate n 0, Some EOF)
      else
        (let mx = sub64 (sr_limit s) (sr_off s);
             m = (if int n > mx then nat mx else n);
             (buf, err) = ReadAt (sr_r s) m (sr_off s)
         in (buf @ replicate (n - m) 0, err)))"

subsection \<open>The scanner: \<open>storageBlobPageSplit\<close>\<close>

definition minPageSize :: int where
  "minPageSize = 4 * 1024"

definition maxPageSize :: int where
  "maxPageSize = 4 * 1024 * 1024"

record byteRange =
  br_offset :: int
  br_length :: int

record storageBlobPage =
  offset :: int
  sectionReader :: SectionReader

definition emptyPage :: "byte list" where
  "emptyPage = replicate (nat minPageSize) 0"

definition blobSize_of :: "int \<Rightarrow> int" where
  "blobSize_of fileSize =
     (if rem64 fileSize minPageSize \<noteq> 0
      then add64 fileSize (sub64 minPageSize (rem64 fileSize minPageSize))
      else fileSize)"

text \<open>The test \<open>err != nil && err != io.EOF\<close>: the error to report, if any.\<close>

definition read_failed :: "error option \<Rightarrow> error option" where
  "read_failed err = (case err of None \<Rightarrow> None | Some e \<Rightarrow> if e = EOF then None else Some e)"

text \<open>
  The body of the scanning loop after the page at offset \<open>i\<close> has been read: the new
  \<open>currentRange\<close> and \<open>nonEmptyRanges\<close>.
\<close>

definition page_step ::
  "int \<Rightarrow> int \<Rightarrow> byte list \<Rightarrow> byteRange \<Rightarrow> byteRange list \<Rightarrow> byteRange \<times> byteRange list"
where
  "page_step blobSize i pageBuf currentRange nonEmptyRanges =
     (if pageBuf = emptyPage then
        (\<lparr>br_offset = add64 i minPageSize, br_length = 0\<rparr>,
         if br_length currentRange \<noteq> 0 then nonEmptyRanges @ [currentRange]
         else nonEmptyRanges)
      else
        (let cr = currentRange\<lparr>br_length := add64 (br_length currentRange) minPageSize\<rparr>
         in if br_length cr = maxPageSize \<or> add64 (br_offset cr) (br_length cr) = blobSize
            then (\<lparr>br_offset = add64 i minPageSize, br_length = 0\<rparr>, nonEmptyRanges @ [cr])
            else (cr, nonEmptyRanges)))"

text \<open>
  The loop \<open>for i := int64(0); i < blobSize; i += minPageSize\<close>, with the loop
  variable, \<open>currentRange\<close> and \<open>nonEmptyRanges\<close> as arguments. \<open>None\<close> is a loop that
  does not end.
\<close>

partial_function (option) scan_loop ::
  "File \<Rightarrow> int \<Rightarrow> int \<Rightarrow> byteRange \<Rightarrow> byteRange list \<Rightarrow> (error + byteRange list) option"
where
  "scan_loop f blobSize i currentRange nonEmptyRanges =
     (if i < blobSize then
        (case ReadAt f (nat minPageSize) i of
           (pageBuf, err) \<Rightarrow>
             (case read_failed err of
                Some e \<Rightarrow> Some (Inl (CouldNotReadChunk i e))
              | None \<Rightarrow>
                  (case page_step blobSize i pageBuf currentRange nonEmptyRanges of
                     (cr, acc) \<Rightarrow> scan_loop f blobSize (add64 i minPageSize) cr acc)))
      else Some (Inr nonEmptyRanges))"

definition storageBlobPageSplit ::
  "File \<Rightarrow> int \<Rightarrow> (error + storageBlobPage list) option"
where
  "storageBlobPageSplit f fileSize =
     (case scan_loop f (blobSize_of fileSize) 0 \<lparr>br_offset = 0, br_length = 0\<rparr> [] of
        None \<Rightarrow> None
      | Some (Inl e) \<Rightarrow> Some (Inl e)
      | Some (Inr nonEmptyRanges) \<Rightarrow>
          Some (Inr (map (\<lambda>r. \<lparr>offset = br_offset r,
                                 sectionReader = NewSectionReader f (br_offset r) (br_length r)\<rparr>)
                         nonEmptyRanges)))"

subsection \<open>The storage client and the upload request\<close>

text \<open>
  The calls that the source makes on \<open>blobs.Client\<close>, each with the account, container
  and blob names and the fields of its input that the source sets:
  \<open>CopyAndWait\<close> (\<open>CopySource\<close>, \<open>MetaData\<close>), \<open>PutBlockBlob\<close> and
  \<open>PutBlockBlobFromFile\<close> (\<open>ContentType\<close>, \<open>MetaData\<close>), \<open>PutPageBlob\<close>
  (\<open>BlobContentLengthBytes\<close>, \<open>ContentType\<close>, \<open>MetaData\<close>) and \<open>PutPageUpdate\<close>
  (\<open>StartByte\<close>, \<open>EndByte\<close>, \<open>Content\<close>).
\<close>

datatype remote_call =
    CopyAndWait string string string string "string \<rightharpoonup> string"
  | PutBlockBlob string string string string "string \<rightharpoonup> string"
  | PutBlockBlobFromFile string string string File string "string \<rightharpoonup> string"
  | PutPageBlob string string string int string "string \<rightharpoonup> string"
  | PutPageUpdate string string string int int "byte list"

text \<open>
  \<open>BlobUpload\<close>, field by field. The client is the function that answers each call with
  its error, if any.
\<close>

record BlobUpload =
  Client :: "remote_call \<Rightarrow> error option"
  AccountName :: string
  BlobName :: string
  ContainerName :: string
  BlobType :: string
  ContentType :: string
  MetaData :: "string \<rightharpoonup> string"
  Parallelism :: int
  Size :: int
  Source :: string
  SourceUri :: string

text \<open>
  What the code takes from its surroundings: \<open>os.Open\<close>, \<open>runtime.NumCPU\<close>,
  \<open>strings.ToLower\<close>, and the scheduler, as the list of the workers' turns (a worker's
  number for each turn) that are taken while the coordinator waits.
\<close>

record Env =
  os_Open :: "string \<Rightarrow> error + File"
  NumCPU :: int
  ToLower :: "string \<Rightarrow> string"
  schedule :: "nat list"

subsection \<open>The worker: \<open>blobPageUploadWorker\<close>\<close>

text \<open>The boundaries \<open>start\<close>, \<open>end\<close> and \<open>size\<close> that a worker computes for a page.\<close>

definition page_bounds :: "int \<Rightarrow> storageBlobPage \<Rightarrow> int \<times> int \<times> int" where
  "page_bounds blobSize page =
     (let start = offset page;
          end0 = sub64 (add64 (offset page) (sr_Size (sectionReader page))) 1;
          end' = (if end0 > sub64 blobSize 1 then sub64 blobSize 1 else end0);
          size' = add64 (sub64 end' start) 1
      in (start, end', size'))"

text \<open>
  Where a worker stands: about to receive from the \<open>pages\<close> channel; holding a page it
  has received; about to report the outcome of a page (the error to send, if any, and
  \<open>wg.Done\<close>); or returned, the channel being closed and empty.
\<close>

datatype worker =
    Receiving
  | Holding storageBlobPage
  | Reporting storageBlobPage "error option"
  | Exited

text \<open>
  The state that the coordinator and its workers share: the two channels, the wait
  group's counter and the workers, with the client calls made so far, the pages whose
  \<open>wg.Done\<close> has run, and whether a goroutine has panicked (which ends the process).
\<close>

record pool =
  pages :: "storageBlobPage list"
  errors :: "error list"
  wg :: int
  workers :: "worker list"
  calls :: "remote_call list"
  completed :: "storageBlobPage list"
  panicked :: bool

text \<open>
  One turn of worker \<open>w\<close>; \<open>None\<close> when it cannot move (it has returned, it does not
  exist, the process has panicked, or its send on the full \<open>errors\<close> channel of capacity
  \<open>cap\<close> blocks). \<open>make([]byte, size)\<close> panics on a negative size, and \<open>wg.Done\<close> on a
  counter that would go negative.
\<close>

definition worker_step :: "BlobUpload \<Rightarrow> int \<Rightarrow> nat \<Rightarrow> nat \<Rightarrow> pool \<Rightarrow> pool option" where
  "worker_step sbu blobSize cap w s =
     (if panicked s \<or> w \<ge> length (workers s) then None
      else case workers s ! w of
        Exited \<Rightarrow> None
      | Receiving \<Rightarrow>
          (case pages s of
             [] \<Rightarrow> Some (s\<lparr>workers := (workers s)[w := Exited]\<rparr>)
           | page # rest \<Rightarrow> Some (s\<lparr>pages := rest, workers := (workers s)[w := Holding page]\<rparr>))
      | Holding page \<Rightarrow>
          (case page_bounds blobSize page of
             (start, end', size') \<Rightarrow>
               if size' < 0 then Some (s\<lparr>panicked := True\<rparr>)
               else
                 (case sr_Read (sectionReader page) (nat size') of
                    (chunk, err) \<Rightarrow>
                      (case read_failed err of
                         Some e \<Rightarrow>
                           Some (s\<lparr>workers := (workers s)[w := Reporting page
                                   (Some (ErrorReadingSource (Source sbu) (offset page) e))]\<rparr>)
                       | None \<Rightarrow>
                           (let input = PutPageUpdate (AccountName sbu) (ContainerName sbu)
                                          (BlobName sbu) start end' chunk
                            in Some (s\<lparr>calls := calls s @ [input],
                                        workers := (workers s)[w := Reporting page
                                          (map_option (ErrorWritingPage (offset page) (Source sbu))
                                             (Client sbu input))]\<rparr>)))))
      | Reporting page r \<Rightarrow>
          (if r \<noteq> None \<and> length (errors s) \<ge> cap then None
           else if wg s - 1 < 0 then Some (s\<lparr>panicked := True\<rparr>)
           else Some (s\<lparr>errors := (case r of None \<Rightarrow> errors s | Some e \<Rightarrow> errors s @ [e]),
                          wg := wg s - 1,
                          completed := completed s @ [page],
                          workers := (workers s)[w := Receiving]\<rparr>)))"

subsection \<open>The coordinator: \<open>pageUploadFromSource\<close>\<close>

text \<open>\<open>wg.Wait()\<close> returns once the counter is zero (in a process that is still alive).\<close>

definition wait_over :: "pool \<Rightarrow> bool" where
  "wait_over s = (\<not> panicked s \<and> wg s = 0)"

text \<open>
  The coordinator in \<open>wg.Wait()\<close> while the workers take the turns of the schedule: the
  state in which the wait returns, or \<open>None\<close> when it has not returned by the end of
  the schedule. A turn of a worker that cannot move changes nothing.
\<close>

primrec run :: "BlobUpload \<Rightarrow> int \<Rightarrow> nat \<Rightarrow> nat list \<Rightarrow> pool \<Rightarrow> pool option" where
  "run sbu blobSize cap [] s = (if wait_over s then Some s else None)"
| "run sbu blobSize cap (w # ws) s =
     (if wait_over s then Some s
      else run sbu blobSize cap ws
             (case worker_step sbu blobSize cap w s of None \<Rightarrow> s | Some s' \<Rightarrow> s'))"

text \<open>The state after the queue is seeded and closed and the workers are launched.\<close>

definition launch :: "storageBlobPage list \<Rightarrow> int \<Rightarrow> pool" where
  "launch pageList workerCount =
     \<lparr>pages = pageList, errors = [], wg = int (length pageList),
      workers = replicate (nat workerCount) Receiving,
      calls = [], completed = [], panicked = False\<rparr>"

text \<open>
  \<open>pageUploadFromSource\<close>: the error it returns and the client calls it has made, or
  \<open>None\<close> when it does not return.
\<close>

definition pageUploadFromSource ::
  "Env \<Rightarrow> BlobUpload \<Rightarrow> File \<Rightarrow> int \<Rightarrow> (error option \<times> remote_call list) option"
where
  "pageUploadFromSource env sbu f fileSize =
     (let workerCount = mul64 (Parallelism sbu) (NumCPU env)
      in case storageBlobPageSplit f fileSize of
           None \<Rightarrow> None
         | Some (Inl err) \<Rightarrow> Some (Some (ErrorSplitting (Source sbu) err), [])
         | Some (Inr pageList) \<Rightarrow>
             (case run sbu fileSize (length pageList) (schedule env)
                     (launch pageList workerCount) of
                None \<Rightarrow> None
              | Some s \<Rightarrow>
                  (case errors s of
                     [] \<Rightarrow> Some (None, calls s)
                   | e # rest \<Rightarrow> Some (Some (ErrorWhileUploading (Source sbu) e), calls s))))"

subsection \<open>The creation dispatch: \<open>Create\<close> and its paths\<close>

definition copy :: "BlobUpload \<Rightarrow> error option \<times> remote_call list" where
  "copy sbu =
     (let input = CopyAndWait (AccountName sbu) (ContainerName sbu) (BlobName sbu)
                    (SourceUri sbu) (MetaData sbu)
      in (map_option ErrorCopyWaiting (Client sbu input), [input]))"

definition createEmptyBlockBlob :: "BlobUpload \<Rightarrow> error option \<times> remote_call list" where
  "createEmptyBlockBlob sbu =
     (let input = PutBlockBlob (AccountName sbu) (ContainerName sbu) (BlobName sbu)
                    (ContentType sbu) (MetaData sbu)
      in (map_option ErrorPutBlockBlob (Client sbu input), [input]))"

definition uploadBlockBlob :: "Env \<Rightarrow> BlobUpload \<Rightarrow> error option \<times> remote_call list" where
  "uploadBlockBlob env sbu =
     (case os_Open env (Source sbu) of
        Inl err \<Rightarrow> (Some (ErrorOpening err), [])
      | Inr f \<Rightarrow>
          (let input = PutBlockBlobFromFile (AccountName sbu) (ContainerName sbu) (BlobName sbu)
                         f (ContentType sbu) (MetaData sbu)
           in (map_option ErrorPutBlockBlobFromFile (Client sbu input), [input])))"

definition createEmptyPageBlob :: "BlobUpload \<Rightarrow> error option \<times> remote_call list" where
  "createEmptyPageBlob sbu =
     (if Size sbu = 0 then (Some SizeCannotBeZero, [])
      else
        (let input = PutPageBlob (AccountName sbu) (ContainerName sbu) (BlobName sbu)
                       (Size sbu) (ContentType sbu) (MetaData sbu)
         in (map_option ErrorPutPageBlob (Client sbu input), [input])))"

definition uploadPageBlob ::
  "Env \<Rightarrow> BlobUpload \<Rightarrow> (error option \<times> remote_call list) option"
where
  "uploadPageBlob env sbu =
     (if Size sbu \<noteq> 0 then Some (Some SizeCannotBeSet, [])
      else case os_Open env (Source sbu) of
        Inl err \<Rightarrow> Some (Some (ErrorOpeningSource (Source sbu) err), [])
      | Inr f \<Rightarrow>
          (case Stat f of
             Inl err \<Rightarrow> Some (Some (CouldNotStat (Name f) err), [])
           | Inr fileSize \<Rightarrow>
               (let input = PutPageBlob (AccountName sbu) (ContainerName sbu) (BlobName sbu)
                              fileSize (ContentType sbu) (MetaData sbu)
                in case Client sbu input of
                     Some err \<Rightarrow> Some (Some (ErrorPutPageBlob err), [input])
                   | None \<Rightarrow>
                       (case pageUploadFromSource env sbu f fileSize of
                          None \<Rightarrow> None
                        | Some (err, cs) \<Rightarrow>
                            Some (map_option ErrorCreatingOnAzure err, input # cs)))))"

text \<open>
  \<open>Create\<close>: the error it returns and the client calls it has made, in order, or \<open>None\<close>
  when it does not return.
\<close>

definition Create :: "Env \<Rightarrow> BlobUpload \<Rightarrow> (error option \<times> remote_call list) option" where
  "Create env sbu =
     (if SourceUri sbu \<noteq> [] then Some (copy sbu)
      else
        (let blobType = ToLower env (BlobType sbu)
         in if blobType = ''block'' then
              (if Source sbu \<noteq> [] then Some (uploadBlockBlob env sbu)
               else Some (createEmptyBlockBlob sbu))
            else if blobType = ''page'' then
              (if Source sbu \<noteq> [] then uploadPageBlob env sbu
               else Some (createEmptyPageBlob sbu))
            else Some (Some (UnsupportedBlobType blobType), [])))"

subsection \<open>Predicates of the specification and of the proofs\<close>

definition aligned :: "int \<Rightarrow> bool" where
  "aligned x = (minPageSize dvd x)"

definition page_nonzero :: "File \<Rightarrow> int \<Rightarrow> bool" where
  "page_nonzero f i = (fst (ReadAt f (nat minPageSize) i) \<noteq> emptyPage)"

definition no_fault :: "File \<Rightarrow> int \<Rightarrow> int \<Rightarrow> bool" where
  "no_fault f i B = (\<forall>j. i \<le> j \<and> j < B \<and> aligned j \<longrightarrow> fault f j = None)"

definition scan_inv :: "int \<Rightarrow> int \<Rightarrow> byteRange \<Rightarrow> bool" where
  "scan_inv B i cur =
     (aligned B \<and> B < 2 ^ 63 \<and> aligned i \<and> 0 \<le> i \<and> i \<le> B \<and>
      br_offset cur + br_length cur = i \<and> 0 \<le> br_offset cur \<and> 0 \<le> br_length cur \<and>
      br_length cur < maxPageSize \<and> aligned (br_length cur) \<and>
      (br_length cur = 0 \<or> i < B))"

definition covered :: "byteRange list \<Rightarrow> int \<Rightarrow> bool" where
  "covered rs x = (\<exists>r\<in>set rs. br_offset r \<le> x \<and> x < br_offset r + br_length r)"

definition range_ok :: "byteRange \<Rightarrow> bool" where
  "range_ok r = (aligned (br_offset r) \<and> aligned (br_length r) \<and> 0 < br_length r \<and> br_length r \<le> maxPageSize)"

fun ranges_from :: "int \<Rightarrow> byteRange list \<Rightarrow> bool" where
  "ranges_from lo [] = True"
| "ranges_from lo (r # rs) = (lo \<le> br_offset r \<and> range_ok r \<and> ranges_from (br_offset r + br_length r) rs)"

definition range_closed :: "File \<Rightarrow> int \<Rightarrow> byteRange \<Rightarrow> bool" where
  "range_closed f B r =
     (br_length r = maxPageSize \<or> br_offset r + br_length r = B \<or>
      \<not> page_nonzero f (br_offset r + br_length r))"

definition scan_post :: "File \<Rightarrow> int \<Rightarrow> int \<Rightarrow> byteRange \<Rightarrow> byteRange list \<Rightarrow> bool" where
  "scan_post f B i cur rs =
     (ranges_from (br_offset cur) rs \<and>
      (\<forall>j. aligned j \<longrightarrow>
         covered rs j = (br_offset cur \<le> j \<and> j < B \<and> (j < i \<or> page_nonzero f j))) \<and>
      (\<forall>r\<in>set rs. range_closed f B r) \<and>
      ((\<forall>j. aligned j \<and> i \<le> j \<and> j < B \<longrightarrow> page_nonzero f j) \<longrightarrow>
         br_offset cur + sum_list (map br_length rs) = B))"

definition page_length :: "storageBlobPage \<Rightarrow> int" where
  "page_length p = sr_Size (sectionReader p)"

definition page_range :: "storageBlobPage \<Rightarrow> byteRange" where
  "page_range p = \<lparr>br_offset = offset p, br_length = page_length p\<rparr>"

definition to_page :: "File \<Rightarrow> byteRange \<Rightarrow> storageBlobPage" where
  "to_page f r = \<lparr>offset = br_offset r,
                  sectionReader = NewSectionReader f (br_offset r) (br_length r)\<rparr>"

definition split_post :: "File \<Rightarrow> int \<Rightarrow> byteRange list \<Rightarrow> bool" where
  "split_post f B rs =
     (ranges_from 0 rs \<and>
      (\<forall>j. aligned j \<longrightarrow> covered rs j = (0 \<le> j \<and> j < B \<and> page_nonzero f j)) \<and>
      (\<forall>r\<in>set rs. range_closed f B r) \<and>
      (\<forall>r\<in>set rs. br_offset r + br_length r \<le> B) \<and>
      (0 \<le> B \<longrightarrow> (\<forall>j. aligned j \<and> 0 \<le> j \<and> j < B \<longrightarrow> page_nonzero f j) \<longrightarrow>
         sum_list (map br_length rs) = B))"

definition has_nonzero_byte :: "File \<Rightarrow> int \<Rightarrow> bool" where
  "has_nonzero_byte f j = (\<exists>b\<in>set (take (nat minPageSize) (drop (nat j) (contents f))). b \<noteq> 0)"

definition in_some_range :: "storageBlobPage list \<Rightarrow> int \<Rightarrow> bool" where
  "in_some_range ps x = (\<exists>p\<in>set ps. offset p \<le> x \<and> x < offset p + page_length p)"

definition smallest_multiple_ge :: "int \<Rightarrow> int \<Rightarrow> bool" where
  "smallest_multiple_ge s b =
     (minPageSize dvd b \<and> s \<le> b \<and> (\<forall>m. minPageSize dvd m \<and> s \<le> m \<longrightarrow> b \<le> m))"

subsection \<open>Predicates about the worker pool\<close>

text \<open>
  What a worker does with a page it holds, as \<open>worker_step\<close> has it: the call it makes
  on the client, if the read succeeds, and the error it reports, if any.
\<close>

definition process_page ::
  "BlobUpload \<Rightarrow> int \<Rightarrow> storageBlobPage \<Rightarrow> remote_call option \<times> error option"
where
  "process_page sbu blobSize page =
     (case page_bounds blobSize page of
        (start, end', size') \<Rightarrow>
          (case sr_Read (sectionReader page) (nat size') of
             (chunk, err) \<Rightarrow>
               (case read_failed err of
                  Some e \<Rightarrow> (None, Some (ErrorReadingSource (Source sbu) (offset page) e))
                | None \<Rightarrow>
                    (let input = PutPageUpdate (AccountName sbu) (ContainerName sbu)
                                   (BlobName sbu) start end' chunk
                     in (Some input,
                         map_option (ErrorWritingPage (offset page) (Source sbu))
                           (Client sbu input))))))"

definition page_call :: "BlobUpload \<Rightarrow> int \<Rightarrow> storageBlobPage \<Rightarrow> remote_call option" where
  "page_call sbu blobSize page = fst (process_page sbu blobSize page)"

definition page_outcome :: "BlobUpload \<Rightarrow> int \<Rightarrow> storageBlobPage \<Rightarrow> error option" where
  "page_outcome sbu blobSize page = snd (process_page sbu blobSize page)"

definition size_ok :: "int \<Rightarrow> storageBlobPage \<Rightarrow> bool" where
  "size_ok blobSize page = (0 \<le> snd (snd (page_bounds blobSize page)))"

text \<open>The pages that a worker has taken from the queue and not yet signalled.\<close>

fun held :: "worker \<Rightarrow> storageBlobPage list" where
  "held (Holding p) = [p]"
| "held (Reporting p r) = [p]"
| "held Receiving = []"
| "held Exited = []"

text \<open>The calls that the pages in \<open>Reporting\<close> state have made.\<close>

fun reported :: "BlobUpload \<Rightarrow> int \<Rightarrow> worker \<Rightarrow> remote_call list" where
  "reported sbu blobSize (Reporting p r) = List.map_filter (page_call sbu blobSize) [p]"
| "reported sbu blobSize (Holding p) = []"
| "reported sbu blobSize Receiving = []"
| "reported sbu blobSize Exited = []"

fun worker_ok :: "BlobUpload \<Rightarrow> int \<Rightarrow> worker \<Rightarrow> bool" where
  "worker_ok sbu blobSize (Reporting p r) = (r = page_outcome sbu blobSize p)"
| "worker_ok sbu blobSize (Holding p) = True"
| "worker_ok sbu blobSize Receiving = True"
| "worker_ok sbu blobSize Exited = True"

text \<open>
  The invariant of the pool for the page list \<open>ps\<close>: every page is in the queue, with
  a worker or completed; the counter is the number of pages not completed; the
  \<open>errors\<close> channel holds the errors of the completed pages, in the order of
  completion; the calls made are those of the pages completed or being reported; and a
  worker has returned only if the queue is empty.
\<close>

definition pool_inv :: "BlobUpload \<Rightarrow> int \<Rightarrow> storageBlobPage list \<Rightarrow> pool \<Rightarrow> bool" where
  "pool_inv sbu blobSize ps s =
     (mset (completed s) + mset (pages s) + mset (concat (map held (workers s))) = mset ps \<and>
      wg s = int (length ps) - int (length (completed s)) \<and>
      errors s = List.map_filter (page_outcome sbu blobSize) (completed s) \<and>
      list_all (worker_ok sbu blobSize) (workers s) \<and>
      mset (calls s) =
        mset (List.map_filter (page_call sbu blobSize) (completed s)) +
        mset (concat (map (reported sbu blobSize) (workers s))) \<and>
      (Exited \<in> set (workers s) \<longrightarrow> pages s = []))"

text \<open>The number of turns that the pool can still take, at most.\<close>

fun weight :: "worker \<Rightarrow> nat" where
  "weight (Holding p) = 3"
| "weight (Reporting p r) = 2"
| "weight Receiving = 1"
| "weight Exited = 0"

definition turns_left :: "pool \<Rightarrow> nat" where
  "turns_left s = 3 * length (pages s) + sum_list (map weight (workers s))"

text \<open>The state after the turns of a schedule, and the number of turns in which a worker moved.\<close>

primrec exec :: "BlobUpload \<Rightarrow> int \<Rightarrow> nat \<Rightarrow> nat list \<Rightarrow> pool \<Rightarrow> pool" where
  "exec sbu blobSize cap [] s = s"
| "exec sbu blobSize cap (w # ws) s =
     exec sbu blobSize cap ws
       (case worker_step sbu blobSize cap w s of None \<Rightarrow> s | Some s' \<Rightarrow> s')"

primrec moves :: "BlobUpload \<Rightarrow> int \<Rightarrow> nat \<Rightarrow> nat list \<Rightarrow> pool \<Rightarrow> nat" where
  "moves sbu blobSize cap [] s = 0"
| "moves sbu blobSize cap (w # ws) s =
     (case worker_step sbu blobSize cap w s of
        None \<Rightarrow> moves sbu blobSize cap ws s
      | Some s' \<Rightarrow> Suc (moves sbu blobSize cap ws s'))"

text \<open>A call that writes inside a blob of \<open>n\<close> bytes.\<close>

fun writes_within :: "int \<Rightarrow> remote_call \<Rightarrow> bool" where
  "writes_within n (PutPageUpdate a c b start end' content) = (0 \<le> start \<and> start \<le> end' \<and> end' < n)"
| "writes_within n (CopyAndWait a c b src md) = False"
| "writes_within n (PutBlockBlob a c b ct md) = False"
| "writes_within n (PutBlockBlobFromFile a c b f ct md) = False"
| "writes_within n (PutPageBlob a c b sz ct md) = False"

subsection \<open>Example inputs\<close>

text \<open>A file of 10000 bytes: a page of ones, a page of zeros, and 1808 ones.\<close>

definition example_file :: File where
  "example_file =
     \<lparr>Name = ''disk.vhd'', Stat = Inr 10000,
      contents = replicate 4096 1 @ replicate 4096 0 @ replicate 1808 1,
      fault = (\<lambda>_. None)\<rparr>"

text \<open>A file of \<open>2 ^ 63 - 1\<close> bytes, all ones: the largest size an \<open>int64\<close> holds.\<close>

definition huge_file :: File where
  "huge_file =
     \<lparr>Name = ''huge.vhd'', Stat = Inr (2 ^ 63 - 1),
      contents = replicate (2 ^ 63 - 1) 1, fault = (\<lambda>_. None)\<rparr>"

text \<open>A file whose second page cannot be read, an upload request and an environment.\<close>

definition faulty_file :: File where
  "faulty_file =
     \<lparr>Name = ''disk.vhd'', Stat = Inr 10000,
      contents = replicate 10000 1,
      fault = (\<lambda>off. if off = 4096 then Some ''input/output error'' else None)\<rparr>"

definition example_upload :: BlobUpload where
  "example_upload =
     \<lparr>Client = (\<lambda>_. None), AccountName = ''account'', BlobName = ''disk.vhd'',
      ContainerName = ''vhds'', BlobType = ''page'', ContentType = ''application/octet-stream'',
      MetaData = Map.empty, Parallelism = 1, Size = 0, Source = ''disk.vhd'', SourceUri = ''''\<rparr>"

definition example_env :: "File \<Rightarrow> nat list \<Rightarrow> Env" where
  "example_env f sched =
     \<lparr>os_Open = (\<lambda>_. Inr f), NumCPU = 2, ToLower = (\<lambda>s. s), schedule = sched\<rparr>"

text \<open>The two pages of the example file, and a client whose write at offset 8192 fails.\<close>

definition page1 :: storageBlobPage where
  "page1 = to_page example_file \<lparr>br_offset = 0, br_length = 4096\<rparr>"

definition page2 :: storageBlobPage where
  "page2 = to_page example_file \<lparr>br_offset = 8192, br_length = 4096\<rparr>"

definition write1 :: "BlobUpload \<Rightarrow> remote_call" where
  "write1 sbu = PutPageUpdate (AccountName sbu) (ContainerName sbu) (BlobName sbu) 0 4095
                  (fst (ReadAt example_file 4096 0))"

definition write2 :: "BlobUpload \<Rightarrow> remote_call" where
  "write2 sbu = PutPageUpdate (AccountName sbu) (ContainerName sbu) (BlobName sbu) 8192 9999
                  (fst (ReadAt example_file 1808 8192))"

definition failing_client :: "remote_call \<Rightarrow> error option" where
  "failing_client c =
     (case c of
        PutPageUpdate a co b start end' content \<Rightarrow>
          if start = 8192 then Some (External ''timeout'') else None
      | _ \<Rightarrow> None)"

definition failing_upload :: BlobUpload where
  "failing_upload = example_upload\<lparr>Client := failing_client\<rparr>"

section \<open>Properties of the scanner\<close>

lemma wrap64_id: "int64 x \<Longrightarrow> wrap64 x = x"
  by (simp add: int64_def wrap64_def)

lemma int64_wrap64: "int64 (wrap64 x)"
  by (simp add: int64_def wrap64_def)

lemma minPageSize_pos: "0 < minPageSize"
  by (simp add: minPageSize_def)

lemma aligned_add: "aligned a \<Longrightarrow> aligned b \<Longrightarrow> aligned (a + b)"
  by (simp add: aligned_def)

lemma aligned_diff: "aligned a \<Longrightarrow> aligned b \<Longrightarrow> aligned (a - b)"
  by (simp add: aligned_def)

lemma aligned_0: "aligned 0" and aligned_min: "aligned minPageSize"
  by (simp_all add: aligned_def)

lemma aligned_max: "aligned maxPageSize"
proof -
  have "maxPageSize = minPageSize * 1024" by (simp add: maxPageSize_def minPageSize_def)
  then show ?thesis unfolding aligned_def by (metis dvd_triv_left)
qed

lemma aligned_gap: "aligned a \<Longrightarrow> aligned b \<Longrightarrow> a < b \<Longrightarrow> a + minPageSize \<le> b"
proof -
  assume a: "aligned a" "aligned b" "a < b"
  then have "minPageSize dvd (b - a)" by (simp add: aligned_def)
  moreover have "0 < b - a" using a by simp
  ultimately have "minPageSize \<le> b - a" by (rule zdvd_imp_le)
  then show ?thesis by simp
qed

lemma aligned_between: "aligned a \<Longrightarrow> aligned b \<Longrightarrow> a \<le> b \<Longrightarrow> b < a + minPageSize \<Longrightarrow> b = a"
  using aligned_gap [of a b] by force

lemma ReadAt_ok:
  assumes "0 \<le> i" "fault f i = None"
  shows "read_failed (snd (ReadAt f n i)) = None"
  using assms by (simp add: ReadAt_def read_failed_def Let_def)

lemma ReadAt_fault:
  assumes "0 \<le> i" "fault f i = Some s"
  shows "read_failed (snd (ReadAt f n i)) = Some (External s)"
  using assms by (simp add: ReadAt_def read_failed_def)

lemma scan_loop_done: "\<not> i < B \<Longrightarrow> scan_loop f B i cur acc = Some (Inr acc)"
  by (subst scan_loop.simps) simp

lemma scan_loop_fault:
  assumes "i < B" "0 \<le> i" "fault f i = Some s"
  shows "scan_loop f B i cur acc = Some (Inl (CouldNotReadChunk i (External s)))"
proof -
  obtain buf err where r: "ReadAt f (nat minPageSize) i = (buf, err)" by force
  have "read_failed err = Some (External s)"
    using ReadAt_fault [OF assms(2,3), of "nat minPageSize"] r by simp
  then show ?thesis using assms(1) r by (subst scan_loop.simps) simp
qed

lemma scan_loop_step:
  assumes "i < B" "0 \<le> i" "fault f i = None"
  shows "scan_loop f B i cur acc =
         (case page_step B i (fst (ReadAt f (nat minPageSize) i)) cur acc of
            (cr, acc') \<Rightarrow> scan_loop f B (add64 i minPageSize) cr acc')"
proof -
  obtain buf err where r: "ReadAt f (nat minPageSize) i = (buf, err)" by force
  have "read_failed err = None"
    using ReadAt_ok [OF assms(2,3), of "nat minPageSize"] r by simp
  then show ?thesis using assms(1) r by (subst scan_loop.simps) simp
qed

lemma inv_next:
  assumes "scan_inv B i cur" "i < B"
  shows "i + minPageSize \<le> B" "add64 i minPageSize = i + minPageSize"
proof -
  show le: "i + minPageSize \<le> B"
    using assms aligned_gap [of i B] by (simp add: scan_inv_def)
  have "int64 (i + minPageSize)"
    using assms le minPageSize_pos by (simp add: scan_inv_def int64_def)
  then show "add64 i minPageSize = i + minPageSize" by (simp add: add64_def wrap64_id)
qed

lemma maxPageSize_bound: "maxPageSize + minPageSize < 2 ^ 63"
  by (simp add: maxPageSize_def minPageSize_def)

lemma page_step_eq:
  assumes inv: "scan_inv B i cur" and lt: "i < B"
  shows "page_step B i buf cur acc =
         (if buf = emptyPage then
            (\<lparr>br_offset = i + minPageSize, br_length = 0\<rparr>,
             if br_length cur \<noteq> 0 then acc @ [cur] else acc)
          else if br_length cur + minPageSize = maxPageSize \<or> i + minPageSize = B then
            (\<lparr>br_offset = i + minPageSize, br_length = 0\<rparr>,
             acc @ [cur\<lparr>br_length := br_length cur + minPageSize\<rparr>])
          else (cur\<lparr>br_length := br_length cur + minPageSize\<rparr>, acc))"
proof -
  note n = inv_next [OF inv lt]
  have l: "add64 (br_length cur) minPageSize = br_length cur + minPageSize"
    using inv maxPageSize_bound minPageSize_pos
    by (simp add: add64_def wrap64_id int64_def scan_inv_def)
  have e: "br_offset cur + (br_length cur + minPageSize) = i + minPageSize"
    using inv by (simp add: scan_inv_def)
  have o: "add64 (br_offset cur) (br_length cur + minPageSize) = i + minPageSize"
    unfolding add64_def e using n(2) by (simp only: add64_def)
  show ?thesis by (simp add: page_step_def Let_def n(2) l o)
qed

lemma inv_fresh:
  assumes inv: "scan_inv B i cur" and lt: "i < B"
  shows "scan_inv B (i + minPageSize) \<lparr>br_offset = i + minPageSize, br_length = 0\<rparr>"
  using inv inv_next(1) [OF inv lt] minPageSize_pos aligned_min
  by (simp add: scan_inv_def aligned_add aligned_0 maxPageSize_def)

lemma inv_extend:
  assumes inv: "scan_inv B i cur" and lt: "i < B"
    and open': "\<not> (br_length cur + minPageSize = maxPageSize \<or> i + minPageSize = B)"
  shows "scan_inv B (i + minPageSize) (cur\<lparr>br_length := br_length cur + minPageSize\<rparr>)"
proof -
  note n = inv_next(1) [OF inv lt]
  have a: "aligned (br_length cur + minPageSize)"
    using inv by (simp add: scan_inv_def aligned_add aligned_min)
  have "br_length cur < maxPageSize" using inv by (simp add: scan_inv_def)
  then have "br_length cur + minPageSize \<le> maxPageSize"
    using aligned_gap [of "br_length cur" maxPageSize] inv aligned_max
    by (simp add: scan_inv_def)
  then have b: "br_length cur + minPageSize < maxPageSize" using open' by simp
  show ?thesis
    using inv n a b open' minPageSize_pos
    by (simp add: scan_inv_def aligned_add aligned_min)
qed

lemma inv_step:
  assumes inv: "scan_inv B i cur" and lt: "i < B"
  shows "scan_inv B (i + minPageSize) (fst (page_step B i buf cur acc))"
  using inv_fresh [OF inv lt] inv_extend [OF inv lt]
  by (simp add: page_step_eq [OF inv lt])

lemma covered_Nil: "covered [] x = False"
  by (simp add: covered_def)

lemma covered_Cons:
  "covered (r # rs) x = ((br_offset r \<le> x \<and> x < br_offset r + br_length r) \<or> covered rs x)"
  by (simp add: covered_def)

lemma ranges_from_mono: "ranges_from lo rs \<Longrightarrow> lo' \<le> lo \<Longrightarrow> ranges_from lo' rs"
  by (cases rs) auto

lemma post_done:
  assumes inv: "scan_inv B i cur" and ge: "\<not> i < B"
  shows "scan_post f B i cur []"
proof -
  have "br_length cur = 0" "i = B" using inv ge by (auto simp add: scan_inv_def)
  moreover have "br_offset cur = i" using inv calculation by (simp add: scan_inv_def)
  ultimately show ?thesis by (simp add: scan_post_def covered_Nil)
qed

lemma post_zero_empty:
  assumes inv: "scan_inv B i cur" and lt: "i < B" and z: "\<not> page_nonzero f i"
    and e: "br_length cur = 0"
    and p: "scan_post f B (i + minPageSize) \<lparr>br_offset = i + minPageSize, br_length = 0\<rparr> rs"
  shows "scan_post f B i cur rs"
proof -
  have o: "br_offset cur = i" and ai: "aligned i" using inv e by (simp_all add: scan_inv_def)
  have 1: "ranges_from (br_offset cur) rs"
    using p minPageSize_pos by (auto simp add: scan_post_def o intro: ranges_from_mono)
  have 2: "covered rs j = (br_offset cur \<le> j \<and> j < B \<and> (j < i \<or> page_nonzero f j))"
    if aj: "aligned j" for j
  proof -
    have c: "covered rs j = (i + minPageSize \<le> j \<and> j < B \<and> page_nonzero f j)"
      using p aj by (auto simp add: scan_post_def)
    consider (a) "i + minPageSize \<le> j" | (b) "j = i" | (c) "j < i"
      using aligned_between [OF ai aj] by fastforce
    then show ?thesis
    proof cases
      case a
      then show ?thesis using c minPageSize_pos by (auto simp add: o)
    next
      case b
      then show ?thesis using c z minPageSize_pos by (simp add: o)
    next
      case c
      then show ?thesis using \<open>covered rs j = _\<close> minPageSize_pos by (simp add: o)
    qed
  qed
  have 3: "\<forall>r\<in>set rs. range_closed f B r" using p by (simp add: scan_post_def)
  have 4: "\<not> (\<forall>j. aligned j \<and> i \<le> j \<and> j < B \<longrightarrow> page_nonzero f j)"
    using ai lt z by auto
  show ?thesis unfolding scan_post_def using 1 2 3 4 by blast
qed

lemma post_zero_close:
  assumes inv: "scan_inv B i cur" and lt: "i < B" and z: "\<not> page_nonzero f i"
    and e: "br_length cur \<noteq> 0"
    and p: "scan_post f B (i + minPageSize) \<lparr>br_offset = i + minPageSize, br_length = 0\<rparr> rs"
  shows "scan_post f B i cur (cur # rs)"
proof -
  have o: "br_offset cur + br_length cur = i" and ai: "aligned i" 
    and l: "0 < br_length cur" "br_length cur < maxPageSize" "aligned (br_length cur)"
    using inv e by (simp_all add: scan_inv_def)
  have "br_offset cur = i - br_length cur" using o by simp
  then have ao: "aligned (br_offset cur)" using aligned_diff [OF ai l(3)] by simp
  have 1: "ranges_from (br_offset cur) (cur # rs)"
    using p minPageSize_pos l ao
    by (auto simp add: scan_post_def o range_ok_def intro: ranges_from_mono)
  have 2: "covered (cur # rs) j = (br_offset cur \<le> j \<and> j < B \<and> (j < i \<or> page_nonzero f j))"
    if aj: "aligned j" for j
  proof -
    have c: "covered rs j = (i + minPageSize \<le> j \<and> j < B \<and> page_nonzero f j)"
      using p aj by (auto simp add: scan_post_def)
    consider (a) "i + minPageSize \<le> j" | (b) "j = i" | (c) "j < i"
      using aligned_between [OF ai aj] by fastforce
    then show ?thesis
    proof cases
      case a
      then show ?thesis using c minPageSize_pos l o by (auto simp add: covered_Cons)
    next
      case b
      then show ?thesis using c z minPageSize_pos o by (simp add: covered_Cons)
    next
      case c
      then show ?thesis using \<open>covered rs j = _\<close> minPageSize_pos lt o
        by (auto simp add: covered_Cons)
    qed
  qed
  have 3: "\<forall>r\<in>set (cur # rs). range_closed f B r"
    using p z o by (simp add: scan_post_def range_closed_def)
  have 4: "\<not> (\<forall>j. aligned j \<and> i \<le> j \<and> j < B \<longrightarrow> page_nonzero f j)"
    using ai lt z by auto
  show ?thesis unfolding scan_post_def using 1 2 3 4 by blast
qed

lemma post_nz_close:
  assumes inv: "scan_inv B i cur" and lt: "i < B" and nz: "page_nonzero f i"
    and cl: "br_length cur + minPageSize = maxPageSize \<or> i + minPageSize = B"
    and p: "scan_post f B (i + minPageSize) \<lparr>br_offset = i + minPageSize, br_length = 0\<rparr> rs"
  shows "scan_post f B i cur (cur\<lparr>br_length := br_length cur + minPageSize\<rparr> # rs)"
proof -
  have o: "br_offset cur + br_length cur = i" and ai: "aligned i"
    and l: "0 \<le> br_length cur" "br_length cur < maxPageSize" "aligned (br_length cur)"
    using inv by (simp_all add: scan_inv_def)
  have "br_offset cur = i - br_length cur" using o by simp
  then have ao: "aligned (br_offset cur)" using aligned_diff [OF ai l(3)] by simp
  have le: "br_length cur + minPageSize \<le> maxPageSize"
    using aligned_gap [OF l(3) aligned_max l(2)] .
  have 1: "ranges_from (br_offset cur) (cur\<lparr>br_length := br_length cur + minPageSize\<rparr> # rs)"
    using p minPageSize_pos l ao le o
    by (simp add: scan_post_def range_ok_def aligned_add aligned_min add.assoc [symmetric])
  have 2: "covered (cur\<lparr>br_length := br_length cur + minPageSize\<rparr> # rs) j =
           (br_offset cur \<le> j \<and> j < B \<and> (j < i \<or> page_nonzero f j))"
    if aj: "aligned j" for j
  proof -
    have c: "covered rs j = (i + minPageSize \<le> j \<and> j < B \<and> page_nonzero f j)"
      using p aj by (auto simp add: scan_post_def)
    consider (a) "i + minPageSize \<le> j" | (b) "j = i" | (c) "j < i"
      using aligned_between [OF ai aj] by fastforce
    then show ?thesis
    proof cases
      case a
      then show ?thesis using c minPageSize_pos l o by (auto simp add: covered_Cons)
    next
      case b
      then show ?thesis using c nz lt minPageSize_pos l o by (auto simp add: covered_Cons)
    next
      case c
      then show ?thesis using \<open>covered rs j = _\<close> minPageSize_pos lt o
        by (auto simp add: covered_Cons)
    qed
  qed
  have 3: "\<forall>r\<in>set (cur\<lparr>br_length := br_length cur + minPageSize\<rparr> # rs). range_closed f B r"
    using p cl o by (auto simp add: scan_post_def range_closed_def)
  have 4: "br_offset cur + sum_list (map br_length (cur\<lparr>br_length := br_length cur + minPageSize\<rparr> # rs)) = B"
    if a: "\<forall>j. aligned j \<and> i \<le> j \<and> j < B \<longrightarrow> page_nonzero f j"
  proof -
    have "\<forall>j. aligned j \<and> i + minPageSize \<le> j \<and> j < B \<longrightarrow> page_nonzero f j"
      using a minPageSize_pos by auto
    then have "i + minPageSize + sum_list (map br_length rs) = B"
      using p by (simp add: scan_post_def)
    then show ?thesis using o by simp
  qed
  show ?thesis unfolding scan_post_def using 1 2 3 4 by blast
qed

lemma post_nz_cont:
  assumes inv: "scan_inv B i cur" and lt: "i < B" and nz: "page_nonzero f i"
    and p: "scan_post f B (i + minPageSize) (cur\<lparr>br_length := br_length cur + minPageSize\<rparr>) rs"
  shows "scan_post f B i cur rs"
proof -
  have ai: "aligned i" using inv by (simp add: scan_inv_def)
  have o: "br_offset cur \<le> i" using inv by (simp add: scan_inv_def)
  have 1: "ranges_from (br_offset cur) rs" using p by (simp add: scan_post_def)
  have 2: "covered rs j = (br_offset cur \<le> j \<and> j < B \<and> (j < i \<or> page_nonzero f j))"
    if aj: "aligned j" for j
  proof -
    have c: "covered rs j =
             (br_offset cur \<le> j \<and> j < B \<and> (j < i + minPageSize \<or> page_nonzero f j))"
      using p aj by (simp add: scan_post_def)
    consider (a) "i + minPageSize \<le> j" | (b) "j = i" | (c) "j < i"
      using aligned_between [OF ai aj] by fastforce
    then show ?thesis
    proof cases
      case a
      then show ?thesis using c minPageSize_pos by auto
    next
      case b
      then show ?thesis using c nz minPageSize_pos by simp
    next
      case c
      then show ?thesis using \<open>covered rs j = _\<close> minPageSize_pos by simp
    qed
  qed
  have 3: "\<forall>r\<in>set rs. range_closed f B r" using p by (simp add: scan_post_def)
  have 4: "br_offset cur + sum_list (map br_length rs) = B"
    if a: "\<forall>j. aligned j \<and> i \<le> j \<and> j < B \<longrightarrow> page_nonzero f j"
  proof -
    have "\<forall>j. aligned j \<and> i + minPageSize \<le> j \<and> j < B \<longrightarrow> page_nonzero f j"
      using a minPageSize_pos by auto
    then show ?thesis using p by (simp add: scan_post_def)
  qed
  show ?thesis unfolding scan_post_def using 1 2 3 4 by blast
qed

lemma no_fault_next: "no_fault f i B \<Longrightarrow> no_fault f (i + minPageSize) B"
  using minPageSize_pos by (auto simp add: no_fault_def)

lemma scan_ok:
  assumes "scan_inv B i cur" "no_fault f i B"
  shows "\<exists>rs. scan_loop f B i cur acc = Some (Inr (acc @ rs)) \<and> scan_post f B i cur rs"
  using assms
proof (induction "nat (B - i)" arbitrary: i cur acc rule: less_induct)
  case less
  note inv = less.prems(1) and nf = less.prems(2)
  show ?case
  proof (cases "i < B")
    case False
    then show ?thesis using post_done [OF inv False] by (simp add: scan_loop_done)
  next
    case lt: True
    have i0: "0 \<le> i" and ai: "aligned i" using inv by (simp_all add: scan_inv_def)
    have fi: "fault f i = None" using nf lt ai by (simp add: no_fault_def)
    note n = inv_next [OF inv lt]
    have m: "nat (B - (i + minPageSize)) < nat (B - i)" using lt minPageSize_pos by simp
    note nf' = no_fault_next [OF nf]
    let ?buf = "fst (ReadAt f (nat minPageSize) i)"
    note st = scan_loop_step [OF lt i0 fi, of cur acc, unfolded page_step_eq [OF inv lt] n(2)]
    let ?fresh = "\<lparr>br_offset = i + minPageSize, br_length = 0\<rparr>"
    let ?ext = "cur\<lparr>br_length := br_length cur + minPageSize\<rparr>"
    show ?thesis
    proof (cases "page_nonzero f i")
      case z: False
      then have b: "?buf = emptyPage" by (simp add: page_nonzero_def)
      show ?thesis
      proof (cases "br_length cur = 0")
        case True
        obtain rs where r: "scan_loop f B (i + minPageSize) ?fresh acc = Some (Inr (acc @ rs))"
          "scan_post f B (i + minPageSize) ?fresh rs"
          using less.hyps [OF m inv_fresh [OF inv lt] nf'] by blast
        show ?thesis using st b True r post_zero_empty [OF inv lt z True r(2)] by simp
      next
        case False
        obtain rs where r: "scan_loop f B (i + minPageSize) ?fresh (acc @ [cur]) = Some (Inr ((acc @ [cur]) @ rs))"
          "scan_post f B (i + minPageSize) ?fresh rs"
          using less.hyps [OF m inv_fresh [OF inv lt] nf'] by blast
        show ?thesis using st b False r post_zero_close [OF inv lt z False r(2)] by simp
      qed
    next
      case nz: True
      then have b: "?buf \<noteq> emptyPage" by (simp add: page_nonzero_def)
      show ?thesis
      proof (cases "br_length cur + minPageSize = maxPageSize \<or> i + minPageSize = B")
        case True
        obtain rs where r: "scan_loop f B (i + minPageSize) ?fresh (acc @ [?ext]) = Some (Inr ((acc @ [?ext]) @ rs))"
          "scan_post f B (i + minPageSize) ?fresh rs"
          using less.hyps [OF m inv_fresh [OF inv lt] nf'] by blast
        show ?thesis using st b True r post_nz_close [OF inv lt nz True r(2)] by auto
      next
        case False
        obtain rs where r: "scan_loop f B (i + minPageSize) ?ext acc = Some (Inr (acc @ rs))"
          "scan_post f B (i + minPageSize) ?ext rs"
          using less.hyps [OF m inv_extend [OF inv lt False] nf'] by blast
        show ?thesis using st b False r post_nz_cont [OF inv lt nz r(2)] by auto
      qed
    qed
  qed
qed

lemma no_fault_at: "no_fault f i j \<Longrightarrow> aligned i \<Longrightarrow> i < j \<Longrightarrow> fault f i = None"
  by (simp add: no_fault_def)

lemma scan_err:
  assumes "scan_inv B i cur" "aligned j" "i \<le> j" "j < B" "no_fault f i j" "fault f j = Some s"
  shows "scan_loop f B i cur acc = Some (Inl (CouldNotReadChunk j (External s)))"
  using assms
proof (induction "nat (j - i)" arbitrary: i cur acc rule: less_induct)
  case less
  note inv = less.prems(1)
  have i0: "0 \<le> i" and ai: "aligned i" using inv by (simp_all add: scan_inv_def)
  show ?case
  proof (cases "i = j")
    case True
    then show ?thesis using scan_loop_fault [of j B f s cur acc] less.prems i0 by simp
  next
    case False
    then have lj: "i < j" using less.prems(3) by simp
    then have lt: "i < B" using less.prems(4) by simp
    have fi: "fault f i = None" using no_fault_at [OF less.prems(5) ai lj] .
    note n = inv_next [OF inv lt]
    have le: "i + minPageSize \<le> j" using aligned_gap [OF ai less.prems(2) lj] .
    have m: "nat (j - (i + minPageSize)) < nat (j - i)" using lj minPageSize_pos by simp
    obtain cr acc' where ps: "page_step B i (fst (ReadAt f (nat minPageSize) i)) cur acc = (cr, acc')"
      by force
    have inv': "scan_inv B (i + minPageSize) cr"
      using inv_step [OF inv lt, of "fst (ReadAt f (nat minPageSize) i)" acc] ps by simp
    have "scan_loop f B i cur acc = scan_loop f B (i + minPageSize) cr acc'"
      using scan_loop_step [OF lt i0 fi, of cur acc] ps n(2) by simp
    also have "\<dots> = Some (Inl (CouldNotReadChunk j (External s)))"
      using less.hyps [OF m inv' less.prems(2) le less.prems(4) no_fault_next [OF less.prems(5)] less.prems(6)] .
    finally show ?thesis .
  qed
qed

lemma first_fault:
  assumes "\<not> no_fault f i B"
  shows "\<exists>j s. aligned j \<and> i \<le> j \<and> j < B \<and> no_fault f i j \<and> fault f j = Some s"
proof -
  let ?P = "\<lambda>j. i \<le> j \<and> j < B \<and> aligned j \<and> fault f j \<noteq> None"
  obtain k where "?P k" using assms by (auto simp add: no_fault_def)
  then obtain j where j: "?P j" and least: "\<forall>y. ?P y \<longrightarrow> nat (j - i) \<le> nat (y - i)"
    using ex_has_least_nat [of ?P k "\<lambda>j. nat (j - i)"] by blast
  have "no_fault f i j"
    unfolding no_fault_def
  proof (intro allI impI)
    fix y
    assume y: "i \<le> y \<and> y < j \<and> aligned y"
    show "fault f y = None"
    proof (rule ccontr)
      assume "fault f y \<noteq> None"
      then have "?P y" using y j by simp
      then have "nat (j - i) \<le> nat (y - i)" using least by blast
      then show False using y by linarith
    qed
  qed
  then show ?thesis using j by auto
qed

lemma scan_inv_init: "aligned B \<Longrightarrow> B < 2 ^ 63 \<Longrightarrow> 0 \<le> B \<Longrightarrow> scan_inv B 0 \<lparr>br_offset = 0, br_length = 0\<rparr>"
  by (simp add: scan_inv_def aligned_0 maxPageSize_def)

lemma rem64_dvd: "(rem64 a minPageSize = 0) = aligned a"
proof -
  have "(rem64 a minPageSize = 0) = (a = 0 \<or> \<bar>a\<bar> mod \<bar>minPageSize\<bar> = 0)"
    by (simp add: rem64_def sgn_eq_0_iff)
  also have "\<dots> = (\<bar>minPageSize\<bar> dvd \<bar>a\<bar>)"
    by (cases "a = 0") (simp_all add: mod_eq_0_iff_dvd)
  also have "\<dots> = aligned a" by (simp add: aligned_def)
  finally show ?thesis .
qed

lemma rem64_cong: "aligned (s - rem64 s minPageSize)"
proof -
  have p: "\<bar>minPageSize\<bar> = minPageSize" using minPageSize_pos by simp
  show ?thesis
  proof (cases "0 \<le> s")
    case True
    then have "rem64 s minPageSize = s mod minPageSize"
      by (cases "s = 0") (simp_all add: rem64_def p)
    then show ?thesis by (simp add: aligned_def minus_mod_eq_mult_div)
  next
    case False
    then have "rem64 s minPageSize = - ((- s) mod minPageSize)" by (simp add: rem64_def p)
    then have "s - rem64 s minPageSize = - ((- s) - (- s) mod minPageSize)" by simp
    then show ?thesis by (simp add: aligned_def minus_mod_eq_mult_div)
  qed
qed

lemma rem64_bounds:
  "- minPageSize < rem64 s minPageSize" "rem64 s minPageSize < minPageSize"
  "0 \<le> s \<Longrightarrow> 0 \<le> rem64 s minPageSize" "s \<le> 0 \<Longrightarrow> rem64 s minPageSize \<le> 0"
proof -
  have p: "\<bar>minPageSize\<bar> = minPageSize" using minPageSize_pos by simp
  have m: "0 \<le> \<bar>s\<bar> mod minPageSize" "\<bar>s\<bar> mod minPageSize < minPageSize"
    using minPageSize_pos by simp_all
  show "- minPageSize < rem64 s minPageSize" "rem64 s minPageSize < minPageSize"
    "0 \<le> s \<Longrightarrow> 0 \<le> rem64 s minPageSize" "s \<le> 0 \<Longrightarrow> rem64 s minPageSize \<le> 0"
    using m by (auto simp add: rem64_def p sgn_if)
qed

lemma aligned_wrap64: "aligned x \<Longrightarrow> aligned (wrap64 x)"
proof -
  assume d: "aligned x"
  have p: "minPageSize dvd 2 ^ 63" "minPageSize dvd 2 ^ 64" by (simp_all add: minPageSize_def)
  have "minPageSize dvd (x + 2 ^ 63)" using d p(1) unfolding aligned_def by (rule dvd_add)
  then have "minPageSize dvd (x + 2 ^ 63) mod 2 ^ 64" using p(2) by (simp only: dvd_mod_iff)
  then show ?thesis unfolding wrap64_def aligned_def using p(1) by (rule dvd_diff)
qed

lemma sub_rem: "sub64 minPageSize (rem64 s minPageSize) = minPageSize - rem64 s minPageSize"
proof -
  have "int64 (minPageSize - rem64 s minPageSize)"
    using rem64_bounds(1,2) [of s] by (simp add: int64_def minPageSize_def)
  then show ?thesis by (simp add: sub64_def wrap64_id)
qed

lemma aligned_blobSize_of: "aligned (blobSize_of s)"
proof (cases "rem64 s minPageSize = 0")
  case True
  then show ?thesis by (simp add: blobSize_of_def rem64_dvd)
next
  case False
  have e: "s + (minPageSize - rem64 s minPageSize) = (s - rem64 s minPageSize) + minPageSize" by simp
  have "aligned (s + (minPageSize - rem64 s minPageSize))"
    unfolding e using rem64_cong [of s] aligned_min by (rule aligned_add)
  then show ?thesis using False by (simp add: blobSize_of_def add64_def sub_rem aligned_wrap64)
qed

lemma int64_blobSize_of: "int64 s \<Longrightarrow> int64 (blobSize_of s)"
  by (simp add: blobSize_of_def add64_def int64_wrap64)

lemma blobSize_of_exact:
  assumes "0 \<le> s" "s \<le> 2 ^ 63 - minPageSize"
  shows "s \<le> blobSize_of s \<and> blobSize_of s < s + minPageSize"
proof (cases "rem64 s minPageSize = 0")
  case True
  then show ?thesis using minPageSize_pos by (simp add: blobSize_of_def)
next
  case False
  note r = rem64_bounds [of s]
  have r0: "0 < rem64 s minPageSize" using r(3) assms(1) False by simp
  have "int64 (s + (minPageSize - rem64 s minPageSize))"
    using assms r0 r(2) by (simp add: int64_def)
  then have "blobSize_of s = s + (minPageSize - rem64 s minPageSize)"
    using False by (simp add: blobSize_of_def add64_def sub_rem wrap64_id)
  then show ?thesis using r0 r(2) by simp
qed

lemma ranges_from_sorted:
  "ranges_from lo rs \<Longrightarrow>
   sorted_wrt (\<lambda>a b. br_offset a + br_length a \<le> br_offset b) rs \<and>
   (\<forall>r\<in>set rs. lo \<le> br_offset r \<and> range_ok r)"
proof (induction rs arbitrary: lo)
  case Nil
  then show ?case by simp
next
  case (Cons r rs)
  from Cons.prems have r: "lo \<le> br_offset r" "range_ok r"
    and t: "ranges_from (br_offset r + br_length r) rs" by simp_all
  note ih = Cons.IH [OF t]
  have "0 < br_length r" using r(2) by (simp add: range_ok_def)
  then show ?case using r ih by auto
qed

lemma ranges_upper:
  assumes rf: "ranges_from lo rs" and aB: "aligned B"
    and cov: "\<forall>j. aligned j \<longrightarrow> covered rs j \<longrightarrow> j < B"
    and r: "r \<in> set rs"
  shows "br_offset r + br_length r \<le> B"
proof -
  have ok: "range_ok r" using ranges_from_sorted [OF rf] r by blast
  let ?j = "br_offset r + br_length r - minPageSize"
  have ae: "aligned (br_offset r + br_length r)"
    using ok by (simp add: range_ok_def aligned_add)
  have aj: "aligned ?j" using ae aligned_min by (rule aligned_diff)
  have "minPageSize \<le> br_length r"
    using aligned_gap [OF aligned_0, of "br_length r"] ok by (simp add: range_ok_def)
  then have "covered rs ?j"
    unfolding covered_def using r minPageSize_pos by (intro bexI [of _ r]) auto
  then have lt: "?j < B" using cov aj by blast
  show ?thesis
  proof (rule ccontr)
    assume "\<not> br_offset r + br_length r \<le> B"
    then have "B + minPageSize \<le> br_offset r + br_length r"
      using aligned_gap [OF aB ae] by simp
    then show False using lt by simp
  qed
qed

lemma scan_from_start:
  assumes aB: "aligned B" and bB: "B < 2 ^ 63" and nf: "no_fault f 0 B"
  shows "\<exists>rs. scan_loop f B 0 \<lparr>br_offset = 0, br_length = 0\<rparr> [] = Some (Inr rs) \<and> split_post f B rs"
proof (cases "0 \<le> B")
  case False
  then have "scan_loop f B 0 \<lparr>br_offset = 0, br_length = 0\<rparr> [] = Some (Inr [])"
    by (simp add: scan_loop_done)
  moreover have "split_post f B []" using False by (simp add: split_post_def covered_Nil)
  ultimately show ?thesis by blast
next
  case True
  note inv = scan_inv_init [OF aB bB True]
  obtain rs where r: "scan_loop f B 0 \<lparr>br_offset = 0, br_length = 0\<rparr> [] = Some (Inr rs)"
    and p: "scan_post f B 0 \<lparr>br_offset = 0, br_length = 0\<rparr> rs"
    using scan_ok [OF inv nf, of "[]"] by auto
  have 1: "ranges_from 0 rs" using p by (simp add: scan_post_def)
  have 2: "\<forall>j. aligned j \<longrightarrow> covered rs j = (0 \<le> j \<and> j < B \<and> page_nonzero f j)"
    using p by (auto simp add: scan_post_def)
  have 3: "\<forall>r\<in>set rs. range_closed f B r" using p by (simp add: scan_post_def)
  have 4: "\<forall>r\<in>set rs. br_offset r + br_length r \<le> B"
    using ranges_upper [OF 1 aB] 2 by blast
  have 5: "(\<forall>j. aligned j \<and> 0 \<le> j \<and> j < B \<longrightarrow> page_nonzero f j) \<longrightarrow>
         sum_list (map br_length rs) = B"
    using p by (simp add: scan_post_def)
  show ?thesis using r 1 2 3 4 5 unfolding split_post_def by blast
qed

lemma scan_from_start_err:
  assumes aB: "aligned B" and bB: "B < 2 ^ 63"
    and j: "aligned j" "0 \<le> j" "j < B" "no_fault f 0 j" "fault f j = Some s"
  shows "scan_loop f B 0 \<lparr>br_offset = 0, br_length = 0\<rparr> [] =
         Some (Inl (CouldNotReadChunk j (External s)))"
proof -
  have "0 \<le> B" using j by simp
  then show ?thesis using scan_err [OF scan_inv_init [OF aB bB] j] by simp
qed

lemma split_unfold:
  "storageBlobPageSplit f fileSize =
     (case scan_loop f (blobSize_of fileSize) 0 \<lparr>br_offset = 0, br_length = 0\<rparr> [] of
        None \<Rightarrow> None
      | Some (Inl e) \<Rightarrow> Some (Inl e)
      | Some (Inr rs) \<Rightarrow> Some (Inr (map (to_page f) rs)))"
  unfolding storageBlobPageSplit_def to_page_def [abs_def] by (rule refl)

lemma page_range_to_page:
  assumes "0 \<le> br_offset r" "0 \<le> br_length r" "br_offset r + br_length r < 2 ^ 63"
  shows "page_range (to_page f r) = r"
proof -
  have a: "sub64 maxint64 (br_length r) = maxint64 - br_length r"
    using assms by (simp add: sub64_def wrap64_id int64_def maxint64_def)
  have b: "br_offset r \<le> maxint64 - br_length r" using assms by (simp add: maxint64_def)
  have c: "add64 (br_length r) (br_offset r) = br_length r + br_offset r"
    using assms by (simp add: add64_def wrap64_id int64_def)
  have d: "sub64 (br_length r + br_offset r) (br_offset r) = br_length r"
    using assms by (simp add: sub64_def wrap64_id int64_def)
  show ?thesis
    by (simp add: page_range_def to_page_def page_length_def sr_Size_def NewSectionReader_def a b c d)
qed

lemma split_post_ranges:
  assumes "split_post f B rs" "B < 2 ^ 63"
  shows "map page_range (map (to_page f) rs) = rs"
proof -
  have "page_range (to_page f r) = r" if "r \<in> set rs" for r
  proof -
    have "0 \<le> br_offset r" "range_ok r"
      using ranges_from_sorted [of 0 rs] assms(1) that by (auto simp add: split_post_def)
    moreover have "br_offset r + br_length r \<le> B" using assms(1) that by (simp add: split_post_def)
    ultimately show ?thesis using assms(2) by (intro page_range_to_page) (simp_all add: range_ok_def)
  qed
  then show ?thesis by (simp add: map_idI)
qed

lemma split_cases:
  assumes "int64 fileSize"
  shows "(no_fault f 0 (blobSize_of fileSize) \<and>
          (\<exists>ps. storageBlobPageSplit f fileSize = Some (Inr ps) \<and>
                split_post f (blobSize_of fileSize) (map page_range ps) \<and>
                ps = map (to_page f) (map page_range ps))) \<or>
         (\<exists>j s. aligned j \<and> 0 \<le> j \<and> j < blobSize_of fileSize \<and> no_fault f 0 j \<and>
                fault f j = Some s \<and>
                storageBlobPageSplit f fileSize = Some (Inl (CouldNotReadChunk j (External s))))"
proof -
  let ?B = "blobSize_of fileSize"
  have aB: "aligned ?B" by (rule aligned_blobSize_of)
  have bB: "?B < 2 ^ 63" using int64_blobSize_of [OF assms] by (simp add: int64_def)
  show ?thesis
  proof (cases "no_fault f 0 ?B")
    case True
    obtain rs where r: "scan_loop f ?B 0 \<lparr>br_offset = 0, br_length = 0\<rparr> [] = Some (Inr rs)"
      and p: "split_post f ?B rs"
      using scan_from_start [OF aB bB True] by blast
    define ps where "ps = map (to_page f) rs"
    have e: "map page_range ps = rs" unfolding ps_def by (rule split_post_ranges [OF p bB])
    have 1: "storageBlobPageSplit f fileSize = Some (Inr ps)"
      using r by (simp add: split_unfold ps_def)
    have 2: "split_post f ?B (map page_range ps)" using p by (simp only: e)
    have 3: "ps = map (to_page f) (map page_range ps)" unfolding e by (rule ps_def)
    show ?thesis using True 1 2 3 by blast
  next
    case False
    obtain j s where j: "aligned j" "0 \<le> j" "j < ?B" "no_fault f 0 j" "fault f j = Some s"
      using first_fault [OF False] by blast
    have "storageBlobPageSplit f fileSize = Some (Inl (CouldNotReadChunk j (External s)))"
      using scan_from_start_err [OF aB bB j] by (simp add: split_unfold)
    then show ?thesis using j by blast
  qed
qed

lemma zero_padded_eq:
  fixes d :: "byte list"
  assumes "length d \<le> n"
  shows "(d @ replicate (n - length d) 0 = replicate n 0) = (\<forall>b\<in>set d. b = 0)"
proof
  assume "d @ replicate (n - length d) 0 = replicate n 0"
  then have "set d \<subseteq> set (replicate n (0::byte))" by (metis set_append Un_upper1)
  then show "\<forall>b\<in>set d. b = 0" by auto
next
  assume "\<forall>b\<in>set d. b = 0"
  then have "d = replicate (length d) 0" by (simp add: replicate_length_same)
  then have "d @ replicate (n - length d) 0 = replicate (length d) 0 @ replicate (n - length d) 0"
    by simp
  also have "\<dots> = replicate n 0" using assms by (simp add: replicate_add [symmetric])
  finally show "d @ replicate (n - length d) 0 = replicate n 0" .
qed

lemma page_nonzero_iff:
  assumes "0 \<le> j" "fault f j = None"
  shows "page_nonzero f j = has_nonzero_byte f j"
proof -
  let ?d = "take (nat minPageSize) (drop (nat j) (contents f))"
  have "fst (ReadAt f (nat minPageSize) j) = ?d @ replicate (nat minPageSize - length ?d) 0"
    using assms by (simp add: ReadAt_def Let_def)
  moreover have "length ?d \<le> nat minPageSize" by simp
  ultimately show ?thesis
    using zero_padded_eq [of ?d "nat minPageSize"]
    by (simp add: page_nonzero_def has_nonzero_byte_def emptyPage_def)
qed

lemma in_some_range_covered: "in_some_range ps x = covered (map page_range ps) x"
  by (auto simp add: in_some_range_def covered_def page_range_def)

lemma page_length_range: "page_length p = br_length (page_range p)"
  and offset_range: "offset p = br_offset (page_range p)"
  by (simp_all add: page_range_def)

lemma split_ok:
  assumes "int64 fileSize" "storageBlobPageSplit f fileSize = Some (Inr ps)"
  shows "no_fault f 0 (blobSize_of fileSize)"
    and "split_post f (blobSize_of fileSize) (map page_range ps)"
  using split_cases [OF assms(1), of f] assms(2) by auto

lemma split_sorted:
  assumes "int64 fileSize" "storageBlobPageSplit f fileSize = Some (Inr ps)"
  shows "sorted_wrt (\<lambda>p q. offset p + page_length p \<le> offset q) ps"
    and "\<forall>p\<in>set ps. 0 \<le> offset p \<and> range_ok (page_range p) \<and>
           offset p + page_length p \<le> blobSize_of fileSize"
proof -
  note p = split_ok(2) [OF assms]
  have rf: "ranges_from 0 (map page_range ps)" using p by (simp add: split_post_def)
  note s = ranges_from_sorted [OF rf]
  have "sorted_wrt (\<lambda>a b. br_offset a + br_length a \<le> br_offset b) (map page_range ps)"
    using s by simp
  then show "sorted_wrt (\<lambda>p q. offset p + page_length p \<le> offset q) ps"
    by (simp add: sorted_wrt_map page_range_def)
  have u: "\<forall>r\<in>set (map page_range ps). br_offset r + br_length r \<le> blobSize_of fileSize"
    using p by (simp add: split_post_def)
  show "\<forall>p\<in>set ps. 0 \<le> offset p \<and> range_ok (page_range p) \<and>
           offset p + page_length p \<le> blobSize_of fileSize"
  proof
    fix q assume q: "q \<in> set ps"
    then have m: "page_range q \<in> set (map page_range ps)" by simp
    have "0 \<le> br_offset (page_range q) \<and> range_ok (page_range q)" using s m by blast
    moreover have "br_offset (page_range q) + br_length (page_range q) \<le> blobSize_of fileSize"
      using u m by blast
    ultimately show "0 \<le> offset q \<and> range_ok (page_range q) \<and>
           offset q + page_length q \<le> blobSize_of fileSize"
      by (simp add: page_range_def)
  qed
qed

lemma has_nonzero_byte_nth:
  assumes "0 \<le> j"
  shows "has_nonzero_byte f j =
         (\<exists>k. nat j \<le> k \<and> k < nat j + nat minPageSize \<and> k < length (contents f) \<and> contents f ! k \<noteq> 0)"
proof
  assume "has_nonzero_byte f j"
  then obtain n where n: "n < length (take (nat minPageSize) (drop (nat j) (contents f)))"
      "take (nat minPageSize) (drop (nat j) (contents f)) ! n \<noteq> 0"
    by (auto simp add: has_nonzero_byte_def in_set_conv_nth)
  then have b: "nat j + n < length (contents f)" "n < nat minPageSize" by auto
  moreover have "contents f ! (nat j + n) \<noteq> 0" using n b by (simp add: nth_drop)
  ultimately show "\<exists>k. nat j \<le> k \<and> k < nat j + nat minPageSize \<and> k < length (contents f) \<and> contents f ! k \<noteq> 0"
    by (intro exI [of _ "nat j + n"]) simp
next
  assume "\<exists>k. nat j \<le> k \<and> k < nat j + nat minPageSize \<and> k < length (contents f) \<and> contents f ! k \<noteq> 0"
  then obtain k where k: "nat j \<le> k" "k < nat j + nat minPageSize" "k < length (contents f)"
      "contents f ! k \<noteq> 0" by blast
  let ?d = "take (nat minPageSize) (drop (nat j) (contents f))"
  have a: "k - nat j < length (contents f) - nat j" "k - nat j < nat minPageSize"
    using k by arith+
  then have "k - nat j < length ?d" by simp
  moreover have "?d ! (k - nat j) = contents f ! k" using k a by (simp add: nth_drop)
  ultimately have "contents f ! k \<in> set ?d" by (metis nth_mem)
  then show "has_nonzero_byte f j" using k(4) by (auto simp add: has_nonzero_byte_def)
qed

lemma blobSize_of_10000: "blobSize_of 10000 = 12288"
  by (simp add: blobSize_of_def rem64_def add64_def sub64_def wrap64_def minPageSize_def)

lemma scan_unroll:
  assumes inv: "scan_inv B i cur" and lt: "i < B" and fi: "fault f i = None"
  shows "scan_loop f B i cur acc =
         (if \<not> has_nonzero_byte f i then
            scan_loop f B (i + minPageSize) \<lparr>br_offset = i + minPageSize, br_length = 0\<rparr>
              (if br_length cur \<noteq> 0 then acc @ [cur] else acc)
          else if br_length cur + minPageSize = maxPageSize \<or> i + minPageSize = B then
            scan_loop f B (i + minPageSize) \<lparr>br_offset = i + minPageSize, br_length = 0\<rparr>
              (acc @ [cur\<lparr>br_length := br_length cur + minPageSize\<rparr>])
          else scan_loop f B (i + minPageSize) (cur\<lparr>br_length := br_length cur + minPageSize\<rparr>) acc)"
proof -
  have i0: "0 \<le> i" using inv by (simp add: scan_inv_def)
  have e: "(fst (ReadAt f (nat minPageSize) i) = emptyPage) = (\<not> has_nonzero_byte f i)"
    using page_nonzero_iff [OF i0 fi] unfolding page_nonzero_def by blast
  show ?thesis
    unfolding scan_loop_step [OF lt i0 fi, of cur acc] page_step_eq [OF inv lt]
      inv_next(2) [OF inv lt] e
    by simp
qed

lemma split_scenario:
  assumes len: "length (contents f) = 10000"
    and z: "\<forall>k<10000. (contents f ! k = 0) = (4096 \<le> k \<and> k < 8192)"
    and nf: "\<forall>j. fault f j = None"
  shows "storageBlobPageSplit f 10000 =
         Some (Inr [to_page f \<lparr>br_offset = 0, br_length = 4096\<rparr>,
                    to_page f \<lparr>br_offset = 8192, br_length = 4096\<rparr>])"
proof -
  have p0: "has_nonzero_byte f 0"
    unfolding has_nonzero_byte_nth [of 0 f, simplified]
    using z len by (intro exI [of _ 0]) (simp add: minPageSize_def)
  have p1: "\<not> has_nonzero_byte f 4096"
    unfolding has_nonzero_byte_nth [of 4096 f, simplified]
    using z len by (auto simp add: minPageSize_def)
  have p2: "has_nonzero_byte f 8192"
    unfolding has_nonzero_byte_nth [of 8192 f, simplified]
    using z len by (intro exI [of _ 8192]) (simp add: minPageSize_def)
  have i0: "scan_inv 12288 0 \<lparr>br_offset = 0, br_length = 0\<rparr>"
    by (simp add: scan_inv_def aligned_def minPageSize_def maxPageSize_def)
  have i1: "scan_inv 12288 4096 \<lparr>br_offset = 0, br_length = 4096\<rparr>"
    by (simp add: scan_inv_def aligned_def minPageSize_def maxPageSize_def)
  have i2: "scan_inv 12288 8192 \<lparr>br_offset = 8192, br_length = 0\<rparr>"
    by (simp add: scan_inv_def aligned_def minPageSize_def maxPageSize_def)
  have s0: "scan_loop f 12288 0 \<lparr>br_offset = 0, br_length = 0\<rparr> [] =
            scan_loop f 12288 4096 \<lparr>br_offset = 0, br_length = 4096\<rparr> []"
    using scan_unroll [OF i0 _ nf [rule_format], of "[]"] p0
    by (simp add: minPageSize_def maxPageSize_def)
  have s1: "scan_loop f 12288 4096 \<lparr>br_offset = 0, br_length = 4096\<rparr> [] =
            scan_loop f 12288 8192 \<lparr>br_offset = 8192, br_length = 0\<rparr> [\<lparr>br_offset = 0, br_length = 4096\<rparr>]"
    using scan_unroll [OF i1 _ nf [rule_format], of "[]"] p1
    by (simp add: minPageSize_def maxPageSize_def)
  have s2: "scan_loop f 12288 8192 \<lparr>br_offset = 8192, br_length = 0\<rparr> [\<lparr>br_offset = 0, br_length = 4096\<rparr>] =
            scan_loop f 12288 12288 \<lparr>br_offset = 12288, br_length = 0\<rparr>
              [\<lparr>br_offset = 0, br_length = 4096\<rparr>, \<lparr>br_offset = 8192, br_length = 4096\<rparr>]"
    using scan_unroll [OF i2 _ nf [rule_format], of "[\<lparr>br_offset = 0, br_length = 4096\<rparr>]"] p2
    by (simp add: minPageSize_def maxPageSize_def)
  have "scan_loop f 12288 0 \<lparr>br_offset = 0, br_length = 0\<rparr> [] =
        Some (Inr [\<lparr>br_offset = 0, br_length = 4096\<rparr>, \<lparr>br_offset = 8192, br_length = 4096\<rparr>])"
    unfolding s0 s1 s2 by (simp add: scan_loop_done)
  then show ?thesis by (simp add: split_unfold blobSize_of_10000)
qed

lemma example_file_props:
  "length (contents example_file) = 10000"
  "\<forall>k<10000. (contents example_file ! k = 0) = (4096 \<le> k \<and> k < 8192)"
  "\<forall>j. fault example_file j = None"
  by (auto simp add: example_file_def nth_append)

lemma split_cover_page:
  assumes i: "int64 fileSize" and r: "storageBlobPageSplit f fileSize = Some (Inr ps)"
    and j: "aligned j" "0 \<le> j" "j < blobSize_of fileSize"
  shows "in_some_range ps j = has_nonzero_byte f j"
proof -
  note p = split_ok [OF i r]
  have "fault f j = None" using p(1) j by (simp add: no_fault_def)
  then have "page_nonzero f j = has_nonzero_byte f j" using page_nonzero_iff j(2) by blast
  moreover have "covered (map page_range ps) j = (0 \<le> j \<and> j < blobSize_of fileSize \<and> page_nonzero f j)"
    using p(2) j(1) unfolding split_post_def by blast
  ultimately show ?thesis using j by (simp add: in_some_range_covered)
qed

lemma page_start:
  assumes "0 \<le> x"
  shows "aligned (x - x mod minPageSize)" "0 \<le> x - x mod minPageSize"
    "x - x mod minPageSize \<le> x" "x < x - x mod minPageSize + minPageSize"
proof -
  show "aligned (x - x mod minPageSize)" by (simp add: aligned_def minus_mod_eq_mult_div)
  have "x mod minPageSize \<le> x" using assms by (rule zmod_le_nonneg_dividend)
  then show "0 \<le> x - x mod minPageSize" by simp
  have "0 \<le> x mod minPageSize" "x mod minPageSize < minPageSize"
    using minPageSize_pos by simp_all
  then show "x - x mod minPageSize \<le> x" "x < x - x mod minPageSize + minPageSize" by simp_all
qed

lemma in_range_whole_page:
  assumes i: "int64 fileSize" and r: "storageBlobPageSplit f fileSize = Some (Inr ps)"
    and j: "aligned j" "in_some_range ps j" and x: "j \<le> x" "x < j + minPageSize"
  shows "in_some_range ps x"
proof -
  obtain p where p: "p \<in> set ps" "offset p \<le> j" "j < offset p + page_length p"
    using j(2) by (auto simp add: in_some_range_def)
  have ok: "range_ok (page_range p)" using split_sorted(2) [OF i r] p(1) by blast
  then have "aligned (offset p + page_length p)"
    by (simp add: range_ok_def page_range_def aligned_add)
  then have "j + minPageSize \<le> offset p + page_length p" using aligned_gap [OF j(1) _ p(3)] by simp
  then show ?thesis using p x unfolding in_some_range_def by (intro bexI [of _ p]) auto
qed

lemma split_cover_byte:
  assumes i: "int64 fileSize" and r: "storageBlobPageSplit f fileSize = Some (Inr ps)"
    and le: "int (length (contents f)) \<le> blobSize_of fileSize"
    and k: "k < length (contents f)" "contents f ! k \<noteq> 0"
  shows "in_some_range ps (int k)"
proof -
  let ?j = "int k - int k mod minPageSize"
  have k0: "0 \<le> int k" by simp
  note s = page_start [OF k0]
  have jb: "?j < blobSize_of fileSize" using s(3) k(1) le by linarith
  have n: "nat ?j \<le> k" "k < nat ?j + nat minPageSize" using s minPageSize_pos by linarith+
  have "has_nonzero_byte f ?j"
    unfolding has_nonzero_byte_nth [OF s(2)] using n k by (intro exI [of _ k]) simp
  then have "in_some_range ps ?j" using split_cover_page [OF i r s(1) s(2) jb] by simp
  then show ?thesis using in_range_whole_page [OF i r s(1) _ s(3) s(4)] by blast
qed

lemma split_all_zero:
  assumes i: "int64 fileSize" and r: "storageBlobPageSplit f fileSize = Some (Inr ps)"
    and z: "\<forall>k<length (contents f). contents f ! k = 0"
  shows "ps = []"
proof (rule ccontr)
  assume "ps \<noteq> []"
  then obtain p where p: "p \<in> set ps" by (cases ps) auto
  have q: "0 \<le> offset p" "range_ok (page_range p)" "offset p + page_length p \<le> blobSize_of fileSize"
    using split_sorted(2) [OF i r] p by blast+
  have l: "0 < page_length p" and a: "aligned (offset p)"
    using q(2) by (simp_all add: range_ok_def page_range_def)
  have "in_some_range ps (offset p)" unfolding in_some_range_def using p l by (intro bexI [of _ p]) auto
  then have "has_nonzero_byte f (offset p)"
    using split_cover_page [OF i r a q(1)] q(3) l by simp
  then show False using z by (auto simp add: has_nonzero_byte_nth [OF q(1)])
qed

lemma all_pages_nonzero:
  assumes s: "int (length (contents f)) = fileSize" and b: "fileSize \<le> 2 ^ 63 - minPageSize"
    and nz: "\<forall>k<length (contents f). contents f ! k \<noteq> 0"
    and j: "aligned j" "0 \<le> j" "j < blobSize_of fileSize"
  shows "has_nonzero_byte f j"
proof -
  have f0: "0 \<le> fileSize" using s by simp
  note e = blobSize_of_exact [OF f0 b]
  have "j + minPageSize \<le> blobSize_of fileSize"
    using aligned_gap [OF j(1) aligned_blobSize_of j(3)] .
  then have "j < fileSize" using e by simp
  then have "nat j < length (contents f)" using s j(2) by linarith
  then show ?thesis
    unfolding has_nonzero_byte_nth [OF j(2)] using nz minPageSize_pos
    by (intro exI [of _ "nat j"]) simp
qed

lemma split_all_nonzero:
  assumes s: "int (length (contents f)) = fileSize" and b: "fileSize \<le> 2 ^ 63 - minPageSize"
    and r: "storageBlobPageSplit f fileSize = Some (Inr ps)"
    and nz: "\<forall>k<length (contents f). contents f ! k \<noteq> 0"
  shows "sum_list (map page_length ps) = blobSize_of fileSize"
    and "\<forall>p\<in>set (butlast ps). page_length p = maxPageSize"
proof -
  let ?B = "blobSize_of fileSize"
  have f0: "0 \<le> fileSize" using s by simp
  have i: "int64 fileSize" using f0 b minPageSize_pos by (simp add: int64_def)
  note p = split_ok [OF i r]
  have B0: "0 \<le> ?B" using blobSize_of_exact [OF f0 b] f0 by simp
  have all: "page_nonzero f j" if "aligned j" "0 \<le> j" "j < ?B" for j
  proof -
    have "fault f j = None" using p(1) that by (simp add: no_fault_def)
    then show ?thesis
      using page_nonzero_iff [of j f] all_pages_nonzero [OF s b nz that] that(2) by simp
  qed
  have "sum_list (map br_length (map page_range ps)) = ?B"
    using p(2) B0 all unfolding split_post_def by blast
  then show "sum_list (map page_length ps) = ?B"
    by (simp add: page_range_def comp_def)
  show "\<forall>p\<in>set (butlast ps). page_length p = maxPageSize"
  proof
    fix q assume q: "q \<in> set (butlast ps)"
    then obtain n where n: "n < length ps - 1" "ps ! n = q"
      by (auto simp add: in_set_conv_nth nth_butlast)
    then have qs: "q \<in> set ps" by auto
    let ?l = "ps ! (length ps - 1)"
    have ls: "?l \<in> set ps" using n by auto
    have "offset q + page_length q \<le> offset ?l"
      using split_sorted(1) [OF i r] n by (auto simp add: sorted_wrt_iff_nth_less)
    moreover have "range_ok (page_range ?l)" "offset ?l + page_length ?l \<le> ?B"
      using split_sorted(2) [OF i r] ls by blast+
    ultimately have lt: "offset q + page_length q < ?B"
      by (simp add: range_ok_def page_range_def)
    have qk: "0 \<le> offset q" "range_ok (page_range q)"
      using split_sorted(2) [OF i r] qs by blast+
    then have a: "aligned (offset q + page_length q)" "0 \<le> offset q + page_length q"
      by (simp_all add: range_ok_def page_range_def aligned_add)
    have "range_closed f ?B (page_range q)"
      using p(2) qs unfolding split_post_def by simp
    then show "page_length q = maxPageSize"
      using all [OF a lt] lt by (auto simp add: range_closed_def page_range_def)
  qed
qed

lemma example_split:
  "storageBlobPageSplit example_file 10000 =
   Some (Inr [to_page example_file \<lparr>br_offset = 0, br_length = 4096\<rparr>,
              to_page example_file \<lparr>br_offset = 8192, br_length = 4096\<rparr>])"
  using example_file_props by (rule split_scenario)

lemma to_page_simps:
  assumes "0 \<le> off" "0 \<le> n" "off + n < 2 ^ 63"
  shows "offset (to_page f \<lparr>br_offset = off, br_length = n\<rparr>) = off"
    and "page_length (to_page f \<lparr>br_offset = off, br_length = n\<rparr>) = n"
proof -
  have "page_range (to_page f \<lparr>br_offset = off, br_length = n\<rparr>) = \<lparr>br_offset = off, br_length = n\<rparr>"
    using assms by (intro page_range_to_page) simp_all
  then show "page_length (to_page f \<lparr>br_offset = off, br_length = n\<rparr>) = n"
    by (simp add: page_range_def)
  show "offset (to_page f \<lparr>br_offset = off, br_length = n\<rparr>) = off" by (simp add: to_page_def)
qed

section \<open>Properties of the worker's boundaries\<close>

lemma aligned_top: "aligned (2 ^ 63)"
  by (simp add: aligned_def minPageSize_def)

lemma aligned_minus: "aligned a \<Longrightarrow> aligned (- a)"
  by (simp add: aligned_def)

lemma blobSize_of_aligned: "aligned s \<Longrightarrow> blobSize_of s = s"
  by (simp add: blobSize_of_def rem64_dvd)

lemma blobSize_of_positive:
  assumes i: "int64 s" and pos: "0 < blobSize_of s"
  shows "(- minPageSize < s \<and> s < 0 \<and> blobSize_of s = minPageSize) \<or>
         (0 \<le> s \<and> s \<le> blobSize_of s \<and> blobSize_of s < s + minPageSize)"
proof (cases "aligned s")
  case True
  then show ?thesis using pos minPageSize_pos by (simp add: blobSize_of_aligned)
next
  case False
  let ?r = "rem64 s minPageSize"
  let ?t = "s - ?r"
  note rb = rem64_bounds [of s]
  have at: "aligned ?t" by (rule rem64_cong)
  have r0: "?r \<noteq> 0" using False by (simp add: rem64_dvd)
  have B: "blobSize_of s = wrap64 (?t + minPageSize)"
    using r0 by (simp add: blobSize_of_def add64_def sub_rem algebra_simps)
  have s: "- (2 ^ 63) \<le> s" "s < 2 ^ 63" using i by (simp_all add: int64_def)
  show ?thesis
  proof (cases "0 \<le> s")
    case True
    then have r: "0 < ?r" using rb(3) r0 by simp
    have "?t < 2 ^ 63" using s r by simp
    then have le: "?t + minPageSize \<le> 2 ^ 63" using aligned_gap [OF at aligned_top] by simp
    have ne: "?t + minPageSize \<noteq> 2 ^ 63"
    proof
      assume "?t + minPageSize = 2 ^ 63"
      then have "blobSize_of s = wrap64 (2 ^ 63)" using B by simp
      then show False using pos by (simp add: wrap64_def)
    qed
    have "0 \<le> ?t" using True rb(2) r at aligned_gap [OF at aligned_0] by force
    then have "int64 (?t + minPageSize)" using le ne minPageSize_pos by (simp add: int64_def)
    then have "blobSize_of s = ?t + minPageSize" using B by (simp add: wrap64_id)
    then show ?thesis using True r rb(2) by simp
  next
    case neg: False
    then have r: "?r < 0" using rb(4) r0 by simp
    have t0: "?t \<le> 0"
    proof (rule ccontr)
      assume "\<not> ?t \<le> 0"
      then have "minPageSize \<le> ?t" using aligned_gap [OF aligned_0 at] by simp
      then show False using neg rb(1) by simp
    qed
    have "int64 (?t + minPageSize)" using t0 s r minPageSize_pos by (simp add: int64_def minPageSize_def)
    then have b: "blobSize_of s = ?t + minPageSize" using B by (simp add: wrap64_id)
    have "?t = 0"
    proof (rule ccontr)
      assume "?t \<noteq> 0"
      then have "?t + minPageSize \<le> 0" using t0 aligned_gap [OF at aligned_0] by simp
      then show False using pos b by simp
    qed
    then show ?thesis using neg b rb(1) by simp
  qed
qed

lemma sr_Size_page_length: "sr_Size (sectionReader p) = page_length p"
  by (simp add: page_length_def)

lemma page_bounds_exact:
  assumes i: "int64 fileSize" and r: "storageBlobPageSplit f fileSize = Some (Inr ps)"
    and p: "p \<in> set ps"
  shows "page_bounds fileSize p =
           (offset p, min (offset p + page_length p - 1) (fileSize - 1),
            min (offset p + page_length p - 1) (fileSize - 1) - offset p + 1)"
    and "0 \<le> fileSize \<Longrightarrow> offset p < fileSize"
proof -
  let ?B = "blobSize_of fileSize"
  have bB: "?B < 2 ^ 63" using int64_blobSize_of [OF i] by (simp add: int64_def)
  have q: "0 \<le> offset p" "range_ok (page_range p)" "offset p + page_length p \<le> ?B"
    using split_sorted(2) [OF i r] p by blast+
  have l: "0 < page_length p" "aligned (page_length p)" "aligned (offset p)"
    using q(2) by (simp_all add: range_ok_def page_range_def)
  have lp: "minPageSize \<le> page_length p" using aligned_gap [OF aligned_0 l(2)] l(1) by simp
  have pos: "0 < ?B" using q l by simp
  note c = blobSize_of_positive [OF i pos]
  have s: "- minPageSize < fileSize" "fileSize < 2 ^ 63"
    using c i minPageSize_pos by (auto simp add: int64_def)
  have e0: "sub64 (add64 (offset p) (page_length p)) 1 = offset p + page_length p - 1"
    using q l bB by (simp add: add64_def sub64_def wrap64_id int64_def)
  have e1: "sub64 fileSize 1 = fileSize - 1"
    using s by (simp add: sub64_def wrap64_id int64_def minPageSize_def)
  let ?e = "min (offset p + page_length p - 1) (fileSize - 1)"
  have st: "0 \<le> fileSize \<Longrightarrow> offset p < fileSize"
    using c q(3) lp by auto
  have "fileSize < 0 \<Longrightarrow> offset p = 0"
  proof -
    assume "fileSize < 0"
    then have "?B = minPageSize" using c by auto
    then have "offset p + minPageSize \<le> minPageSize" using q(3) lp by simp
    then show ?thesis using q(1) by simp
  qed
  then have "- minPageSize \<le> ?e - offset p + 1" using s(1) st q(1) l(1) minPageSize_pos by (cases "fileSize < 0") auto
  moreover have "?e - offset p + 1 < 2 ^ 63" using q bB by auto
  moreover have "- minPageSize - 1 \<le> ?e - offset p" "?e - offset p < 2 ^ 63"
    using calculation by simp_all
  ultimately have e2: "add64 (sub64 ?e (offset p)) 1 = ?e - offset p + 1"
    by (simp add: add64_def sub64_def wrap64_id int64_def minPageSize_def)
  have m: "(if fileSize - 1 < offset p + page_length p - 1 then fileSize - 1
            else offset p + page_length p - 1) = ?e"
    by (simp add: min_def)
  show "page_bounds fileSize p = (offset p, ?e, ?e - offset p + 1)"
    by (simp only: page_bounds_def sr_Size_page_length Let_def e0 e1 m e2)
  show "0 \<le> fileSize \<Longrightarrow> offset p < fileSize" by (rule st)
qed

section \<open>Properties of the worker pool\<close>

lemma mset_concat_update:
  "w < length ws \<Longrightarrow>
   mset (concat (map h (ws[w := x]))) + mset (h (ws ! w)) = mset (concat (map h ws)) + mset (h x)"
proof (induction ws arbitrary: w)
  case Nil
  then show ?case by simp
next
  case (Cons a ws)
  show ?case
  proof (cases w)
    case 0
    then show ?thesis by simp
  next
    case (Suc n)
    then have "n < length ws" using Cons.prems by simp
    from Cons.IH [OF this] show ?thesis using Suc by (simp add: ac_simps)
  qed
qed

lemma sum_weight_update:
  "w < length ws \<Longrightarrow>
   sum_list (map weight (ws[w := x])) + weight (ws ! w) = sum_list (map weight ws) + weight x"
proof (induction ws arbitrary: w)
  case Nil
  then show ?case by simp
next
  case (Cons a ws)
  show ?case
  proof (cases w)
    case 0
    then show ?thesis by simp
  next
    case (Suc n)
    then have "n < length ws" using Cons.prems by simp
    from Cons.IH [OF this] show ?thesis using Suc by simp
  qed
qed

lemma list_all_update: "list_all P ws \<Longrightarrow> P x \<Longrightarrow> list_all P (ws[w := x])"
  by (auto simp add: list_all_iff dest: set_update_subset_insert [THEN subsetD])

lemma map_filter_snoc:
  "List.map_filter g (xs @ [x]) = List.map_filter g xs @ List.map_filter g [x]"
  by (simp add: List.map_filter_def)

lemma step_enabled:
  "worker_step sbu B cap w s = Some s' \<Longrightarrow> w < length (workers s) \<and> \<not> panicked s"
  by (auto simp add: worker_step_def split: if_splits)

lemma step_receiving:
  assumes "w < length (workers s)" "\<not> panicked s" "workers s ! w = Receiving"
  shows "worker_step sbu B cap w s =
         (case pages s of
            [] \<Rightarrow> Some (s\<lparr>workers := (workers s)[w := Exited]\<rparr>)
          | page # rest \<Rightarrow> Some (s\<lparr>pages := rest, workers := (workers s)[w := Holding page]\<rparr>))"
  using assms by (simp add: worker_step_def)

lemma step_holding:
  assumes "w < length (workers s)" "\<not> panicked s" "workers s ! w = Holding p"
  shows "worker_step sbu B cap w s =
         (if size_ok B p then
            Some (s\<lparr>calls := calls s @ List.map_filter (page_call sbu B) [p],
                    workers := (workers s)[w := Reporting p (page_outcome sbu B p)]\<rparr>)
          else Some (s\<lparr>panicked := True\<rparr>))"
proof -
  obtain start end' size' where b: "page_bounds B p = (start, end', size')"
    by (cases "page_bounds B p") auto
  obtain chunk err where r: "sr_Read (sectionReader p) (nat size') = (chunk, err)" by force
  show ?thesis
  proof (cases "read_failed err")
    case None
    then show ?thesis
      using assms b r
      by (simp add: worker_step_def size_ok_def page_call_def page_outcome_def process_page_def
          List.map_filter_def Let_def)
  next
    case (Some e)
    then show ?thesis
      using assms b r
      by (simp add: worker_step_def size_ok_def page_call_def page_outcome_def process_page_def
          List.map_filter_def)
  qed
qed

lemma step_reporting:
  assumes "w < length (workers s)" "\<not> panicked s" "workers s ! w = Reporting p r"
  shows "worker_step sbu B cap w s =
         (if r \<noteq> None \<and> length (errors s) \<ge> cap then None
          else if wg s - 1 < 0 then Some (s\<lparr>panicked := True\<rparr>)
          else Some (s\<lparr>errors := errors s @ List.map_filter id [r],
                         wg := wg s - 1,
                         completed := completed s @ [p],
                         workers := (workers s)[w := Receiving]\<rparr>))"
proof (cases r)
  case None
  then show ?thesis using assms by (simp add: worker_step_def List.map_filter_def)
next
  case (Some e)
  then show ?thesis using assms by (simp add: worker_step_def List.map_filter_def)
qed

lemma step_exited:
  assumes "workers s ! w = Exited"
  shows "worker_step sbu B cap w s = None"
  using assms by (simp add: worker_step_def)

lemma exited_update:
  assumes "Exited \<in> set (ws[w := x])" "x \<noteq> Exited"
  shows "Exited \<in> set ws"
  using assms set_update_subset_insert [of ws w x] by auto

lemma pool_inv_panicked: "pool_inv sbu B ps (s\<lparr>panicked := b\<rparr>) = pool_inv sbu B ps s"
  by (simp add: pool_inv_def)

lemma pool_inv_step:
  assumes inv: "pool_inv sbu B ps s" and st: "worker_step sbu B cap w s = Some s'"
  shows "pool_inv sbu B ps s'"
proof -
  have en: "w < length (workers s)" "\<not> panicked s" using step_enabled [OF st] by simp_all
  note uh = mset_concat_update [OF en(1), of held]
  note ur = mset_concat_update [OF en(1), of "reported sbu B"]
  have i1: "mset (completed s) + mset (pages s) + mset (concat (map held (workers s))) = mset ps"
    and i2: "wg s = int (length ps) - int (length (completed s))"
    and i3: "errors s = List.map_filter (page_outcome sbu B) (completed s)"
    and i4: "list_all (worker_ok sbu B) (workers s)"
    and i5: "mset (calls s) = mset (List.map_filter (page_call sbu B) (completed s)) +
               mset (concat (map (reported sbu B) (workers s)))"
    and i6: "Exited \<in> set (workers s) \<longrightarrow> pages s = []"
    using inv by (simp_all add: pool_inv_def)
  show ?thesis
  proof (cases "workers s ! w")
    case Exited
    then show ?thesis using st by (simp add: step_exited)
  next
    case Receiving
    note s = st [unfolded step_receiving [OF en Receiving]]
    show ?thesis
    proof (cases "pages s")
      case Nil
      then have s': "s' = s\<lparr>workers := (workers s)[w := Exited]\<rparr>" using s by simp
      have h: "mset (concat (map held ((workers s)[w := Exited]))) = mset (concat (map held (workers s)))"
        using uh [of Exited] Receiving by simp
      have r: "mset (concat (map (reported sbu B) ((workers s)[w := Exited]))) =
               mset (concat (map (reported sbu B) (workers s)))"
        using ur [of Exited] Receiving by simp
      show ?thesis
        unfolding pool_inv_def s' using i1 i2 i3 i4 i5 Nil h r
        by (simp add: list_all_update)
    next
      case (Cons p rest)
      then have s': "s' = s\<lparr>pages := rest, workers := (workers s)[w := Holding p]\<rparr>"
        using s by simp
      have h: "mset (concat (map held ((workers s)[w := Holding p]))) =
               mset (concat (map held (workers s))) + {#p#}"
        using uh [of "Holding p"] Receiving by simp
      have r: "mset (concat (map (reported sbu B) ((workers s)[w := Holding p]))) =
               mset (concat (map (reported sbu B) (workers s)))"
        using ur [of "Holding p"] Receiving by simp
      have e: "Exited \<notin> set ((workers s)[w := Holding p])"
        using exited_update [of "workers s" w "Holding p"] i6 Cons by auto
      show ?thesis
        unfolding pool_inv_def s' using i1 i2 i3 i4 i5 Cons h r e
        by (simp add: list_all_update)
    qed
  next
    case (Holding p)
    note s = st [unfolded step_holding [OF en Holding]]
    show ?thesis
    proof (cases "size_ok B p")
      case False
      then show ?thesis using s inv by (auto simp add: pool_inv_panicked)
    next
      case True
      let ?x = "Reporting p (page_outcome sbu B p)"
      have s': "s' = s\<lparr>calls := calls s @ List.map_filter (page_call sbu B) [p],
                       workers := (workers s)[w := ?x]\<rparr>"
        using s True by simp
      have h: "mset (concat (map held ((workers s)[w := ?x]))) = mset (concat (map held (workers s)))"
        using uh [of ?x] Holding by simp
      have r: "mset (concat (map (reported sbu B) ((workers s)[w := ?x]))) =
               mset (concat (map (reported sbu B) (workers s))) +
               mset (List.map_filter (page_call sbu B) [p])"
        using ur [of ?x] Holding by simp
      have e: "Exited \<in> set ((workers s)[w := ?x]) \<longrightarrow> pages s = []"
        using exited_update [of "workers s" w ?x] i6 by auto
      show ?thesis
        unfolding pool_inv_def s' using i1 i2 i3 i4 i5 h r e
        by (simp add: list_all_update)
    qed
  next
    case (Reporting p r)
    note s = st [unfolded step_reporting [OF en Reporting]]
    have ok: "r = page_outcome sbu B p"
      using i4 en(1) Reporting by (auto simp add: list_all_length)
    show ?thesis
    proof (cases "wg s - 1 < 0")
      case True
      then show ?thesis using s inv by (auto simp add: pool_inv_panicked split: if_splits)
    next
      case False
      then have s': "s' = s\<lparr>errors := errors s @ List.map_filter id [r],
                         wg := wg s - 1,
                         completed := completed s @ [p],
                         workers := (workers s)[w := Receiving]\<rparr>"
        using s by (auto split: if_splits)
      have h: "mset (concat (map held ((workers s)[w := Receiving]))) + {#p#} =
               mset (concat (map held (workers s)))"
        using uh [of Receiving] Reporting by simp
      have c: "mset (concat (map (reported sbu B) ((workers s)[w := Receiving]))) +
               mset (List.map_filter (page_call sbu B) [p]) =
               mset (concat (map (reported sbu B) (workers s)))"
        using ur [of Receiving] Reporting by simp
      have e: "Exited \<in> set ((workers s)[w := Receiving]) \<longrightarrow> pages s = []"
        using exited_update [of "workers s" w Receiving] i6 by auto
      have m: "List.map_filter id [r] = List.map_filter (page_outcome sbu B) [p]"
        using ok by (simp add: List.map_filter_def)
      have 1: "mset (completed s @ [p]) + mset (pages s) +
               mset (concat (map held ((workers s)[w := Receiving]))) = mset ps"
        using i1 h [symmetric] by simp
      have 5: "mset (calls s) = mset (List.map_filter (page_call sbu B) (completed s @ [p])) +
               mset (concat (map (reported sbu B) ((workers s)[w := Receiving])))"
        using i5 c [symmetric] by (simp add: map_filter_snoc)
      show ?thesis
        unfolding pool_inv_def s' using 1 i2 i3 i4 5 e m
        by (simp add: list_all_update map_filter_snoc)
    qed
  qed
qed

lemma pool_inv_launch: "pool_inv sbu B ps (launch ps k)"
proof -
  have "concat (map h (replicate n Receiving)) = []" if "h Receiving = []" for h :: "worker \<Rightarrow> 'a list" and n
    using that by (induction n) simp_all
  then have "concat (map held (replicate (nat k) Receiving)) = []"
    "concat (map (reported sbu B) (replicate (nat k) Receiving)) = []" by simp_all
  then show ?thesis
    by (simp add: pool_inv_def launch_def List.map_filter_def list_all_iff)
qed

lemma held_in_pages:
  assumes inv: "pool_inv sbu B ps s" and w: "w < length (workers s)" and p: "p \<in> set (held (workers s ! w))"
  shows "p \<in> set ps" "length (completed s) < length ps"
proof -
  have i1: "mset (completed s) + mset (pages s) + mset (concat (map held (workers s))) = mset ps"
    using inv by (simp add: pool_inv_def)
  have c: "p \<in> set (concat (map held (workers s)))" using w p by auto
  then have "p \<in># mset ps" unfolding i1 [symmetric] by simp
  then show "p \<in> set ps" by simp
  have "length (completed s) + length (pages s) + length (concat (map held (workers s))) = length ps"
    using arg_cong [OF i1, of size] by simp
  moreover obtain x xs where "concat (map held (workers s)) = x # xs"
    using c by (cases "concat (map held (workers s))") auto
  then have "0 < length (concat (map held (workers s)))" by (simp only: length_Cons zero_less_Suc)
  ultimately show "length (completed s) < length ps" by linarith
qed

lemma step_no_panic:
  assumes inv: "pool_inv sbu B ps s" and ok: "\<forall>p\<in>set ps. size_ok B p"
    and st: "worker_step sbu B cap w s = Some s'"
  shows "\<not> panicked s'"
proof -
  have en: "w < length (workers s)" "\<not> panicked s" using step_enabled [OF st] by simp_all
  have i2: "wg s = int (length ps) - int (length (completed s))"
    using inv by (simp add: pool_inv_def)
  show ?thesis
  proof (cases "workers s ! w")
    case Exited
    then show ?thesis using st by (simp add: step_exited)
  next
    case Receiving
    then show ?thesis
      using st en by (auto simp add: step_receiving [OF en Receiving] split: list.splits)
  next
    case (Holding p)
    then have "size_ok B p" using held_in_pages(1) [OF inv en(1), of p] ok by simp
    then show ?thesis using st en by (auto simp add: step_holding [OF en Holding])
  next
    case (Reporting p r)
    then have "length (completed s) < length ps" using held_in_pages(2) [OF inv en(1), of p] by simp
    then have "\<not> wg s - 1 < 0" using i2 by simp
    then show ?thesis using st en by (auto simp add: step_reporting [OF en Reporting] split: if_splits)
  qed
qed

lemma step_decreases:
  assumes st: "worker_step sbu B cap w s = Some s'" and np: "\<not> panicked s'"
  shows "turns_left s' < turns_left s"
proof -
  have en: "w < length (workers s)" "\<not> panicked s" using step_enabled [OF st] by simp_all
  note u = sum_weight_update [OF en(1)]
  show ?thesis
  proof (cases "workers s ! w")
    case Exited
    then show ?thesis using st by (simp add: step_exited)
  next
    case Receiving
    show ?thesis
    proof (cases "pages s")
      case Nil
      then have "s' = s\<lparr>workers := (workers s)[w := Exited]\<rparr>"
        using st by (simp add: step_receiving [OF en Receiving])
      then show ?thesis using u [of Exited] Receiving by (simp add: turns_left_def)
    next
      case (Cons p rest)
      then have "s' = s\<lparr>pages := rest, workers := (workers s)[w := Holding p]\<rparr>"
        using st by (simp add: step_receiving [OF en Receiving])
      then show ?thesis using u [of "Holding p"] Receiving Cons by (simp add: turns_left_def)
    qed
  next
    case (Holding p)
    then have "s' = s\<lparr>calls := calls s @ List.map_filter (page_call sbu B) [p],
                    workers := (workers s)[w := Reporting p (page_outcome sbu B p)]\<rparr>"
      using st np by (auto simp add: step_holding [OF en Holding] split: if_splits)
    then show ?thesis
      using u [of "Reporting p (page_outcome sbu B p)"] Holding by (simp add: turns_left_def)
  next
    case (Reporting p r)
    then have "s' = s\<lparr>errors := errors s @ List.map_filter id [r], wg := wg s - 1,
                         completed := completed s @ [p],
                         workers := (workers s)[w := Receiving]\<rparr>"
      using st np by (auto simp add: step_reporting [OF en Reporting] split: if_splits)
    then show ?thesis using u [of Receiving] Reporting by (simp add: turns_left_def)
  qed
qed

lemma length_map_filter_le: "length (List.map_filter g xs) \<le> length xs"
  by (simp add: List.map_filter_def)

lemma step_progress:
  assumes inv: "pool_inv sbu B ps s" and np: "\<not> panicked s" and nw: "\<not> wait_over s"
    and ws: "workers s \<noteq> []"
  shows "\<exists>w<length (workers s). worker_step sbu B (length ps) w s \<noteq> None"
proof (cases "\<exists>w<length (workers s). held (workers s ! w) \<noteq> []")
  case True
  then obtain w where w: "w < length (workers s)" "held (workers s ! w) \<noteq> []" by blast
  show ?thesis
  proof (cases "workers s ! w")
    case (Holding p)
    then show ?thesis using w(1) np by (intro exI [of _ w]) (simp add: step_holding)
  next
    case (Reporting p r)
    have "length (completed s) < length ps"
      using held_in_pages(2) [OF inv w(1), of p] Reporting by simp
    moreover have "errors s = List.map_filter (page_outcome sbu B) (completed s)"
      using inv by (simp add: pool_inv_def)
    ultimately have "length (errors s) < length ps"
      using length_map_filter_le [of "page_outcome sbu B" "completed s"] by simp
    then show ?thesis using w(1) np Reporting by (intro exI [of _ w]) (simp add: step_reporting)
  qed (use w in simp_all)
next
  case False
  then have nh: "\<forall>w<length (workers s). held (workers s ! w) = []" by simp
  then have "\<forall>x\<in>set (workers s). held x = []" by (auto simp add: in_set_conv_nth)
  then have h: "concat (map held (workers s)) = []" by simp
  have i: "mset (completed s) + mset (pages s) + mset (concat (map held (workers s))) = mset ps"
    "wg s = int (length ps) - int (length (completed s))"
    "Exited \<in> set (workers s) \<longrightarrow> pages s = []"
    using inv by (simp_all add: pool_inv_def)
  have "length (completed s) + length (pages s) = length ps"
    using arg_cong [OF i(1), of size] h by simp
  moreover have "wg s \<noteq> 0" using nw np by (simp add: wait_over_def)
  ultimately have pg: "pages s \<noteq> []" using i(2) by auto
  then have "Exited \<notin> set (workers s)" using i(3) by blast
  then have "workers s ! 0 \<noteq> Exited" using ws by (metis length_greater_0_conv nth_mem)
  moreover have "held (workers s ! 0) = []" using nh ws by simp
  ultimately have "workers s ! 0 = Receiving" by (cases "workers s ! 0") simp_all
  then show ?thesis using ws np pg
    by (intro exI [of _ 0]) (simp add: step_receiving split: list.splits)
qed

lemma mset_map_filter:
  "mset xs = mset ys \<Longrightarrow> mset (List.map_filter g xs) = mset (List.map_filter g ys)"
proof -
  assume e: "mset xs = mset ys"
  have "mset (List.map_filter g zs) = image_mset (the \<circ> g) (filter_mset (\<lambda>x. g x \<noteq> None) (mset zs))"
    for zs by (simp add: List.map_filter_def)
  then show ?thesis using e by simp
qed

lemma reported_held: "held w = [] \<Longrightarrow> reported sbu B w = []"
  by (cases w) simp_all

lemma pool_inv_wait_over:
  assumes inv: "pool_inv sbu B ps s" and wo: "wait_over s"
  shows "mset (completed s) = mset ps"
    and "errors s = List.map_filter (page_outcome sbu B) (completed s)"
    and "mset (calls s) = mset (List.map_filter (page_call sbu B) ps)"
proof -
  have i: "mset (completed s) + mset (pages s) + mset (concat (map held (workers s))) = mset ps"
    "wg s = int (length ps) - int (length (completed s))"
    "mset (calls s) = mset (List.map_filter (page_call sbu B) (completed s)) +
               mset (concat (map (reported sbu B) (workers s)))"
    using inv by (simp_all add: pool_inv_def)
  have l: "length (completed s) + length (pages s) + length (concat (map held (workers s))) = length ps"
    using arg_cong [OF i(1), of size] by simp
  have "length (completed s) = length ps" using i(2) wo by (simp add: wait_over_def)
  then have z: "pages s = []" "concat (map held (workers s)) = []" using l by simp_all
  have "mset (completed s) + mset [] + mset [] = mset ps" using i(1) by (simp only: z)
  then show c: "mset (completed s) = mset ps" by simp
  show "errors s = List.map_filter (page_outcome sbu B) (completed s)"
    using inv by (simp add: pool_inv_def)
  have "\<forall>w\<in>set (workers s). held w = []" using z(2) by simp
  then have "concat (map (reported sbu B) (workers s)) = []" by (simp add: reported_held)
  then show "mset (calls s) = mset (List.map_filter (page_call sbu B) ps)"
    using i(3) mset_map_filter [OF c, of "page_call sbu B"] by simp
qed

lemma run_returns:
  assumes "pool_inv sbu B ps s" "run sbu B cap sched s = Some s'"
  shows "pool_inv sbu B ps s' \<and> wait_over s'"
  using assms
proof (induction sched arbitrary: s)
  case Nil
  then show ?case by (simp split: if_splits)
next
  case (Cons w ws)
  show ?case
  proof (cases "wait_over s")
    case True
    then show ?thesis using Cons.prems by simp
  next
    case False
    show ?thesis
    proof (cases "worker_step sbu B cap w s")
      case None
      then show ?thesis using Cons.IH [of s] Cons.prems False by simp
    next
      case (Some t)
      then show ?thesis
        using Cons.IH [of t] Cons.prems False pool_inv_step [OF Cons.prems(1) Some] by simp
    qed
  qed
qed

lemma turns_left_0:
  assumes inv: "pool_inv sbu B ps s" and np: "\<not> panicked s" and z: "turns_left s = 0"
  shows "wait_over s"
proof -
  have p: "pages s = []" and w: "\<forall>x\<in>set (workers s). weight x = 0"
    using z by (simp_all add: turns_left_def)
  have "held x = []" if "weight x = 0" for x using that by (cases x) simp_all
  then have h: "concat (map held (workers s)) = []" using w by simp
  have i: "mset (completed s) + mset (pages s) + mset (concat (map held (workers s))) = mset ps"
    "wg s = int (length ps) - int (length (completed s))"
    using inv by (simp_all add: pool_inv_def)
  have "mset (completed s) + mset [] + mset [] = mset ps" using i(1) by (simp only: p h)
  then have "mset (completed s) = mset ps" by simp
  then have "length (completed s) = length ps" by (rule mset_eq_length)
  then show ?thesis using i(2) np by (simp add: wait_over_def)
qed

lemma run_terminates:
  assumes "pool_inv sbu B ps s" "\<not> panicked s" "\<forall>p\<in>set ps. size_ok B p"
    and "turns_left s \<le> moves sbu B cap sched s"
  shows "run sbu B cap sched s \<noteq> None"
  using assms
proof (induction sched arbitrary: s)
  case Nil
  then show ?case using turns_left_0 [of sbu B ps s] by simp
next
  case (Cons w ws)
  show ?case
  proof (cases "wait_over s")
    case True
    then show ?thesis by simp
  next
    case False
    show ?thesis
    proof (cases "worker_step sbu B cap w s")
      case None
      then show ?thesis using Cons.IH [of s] Cons.prems False by simp
    next
      case (Some t)
      note np = step_no_panic [OF Cons.prems(1,3) Some]
      have "turns_left t < turns_left s" using step_decreases [OF Some np] .
      then have "turns_left t \<le> moves sbu B cap ws t" using Cons.prems(4) Some by simp
      then show ?thesis
        using Cons.IH [OF pool_inv_step [OF Cons.prems(1) Some] np Cons.prems(3)] Some False
        by simp
    qed
  qed
qed

lemma run_no_workers:
  assumes "workers s = []" "\<not> wait_over s"
  shows "run sbu B cap sched s = None"
proof -
  have "worker_step sbu B cap w s = None" for w using assms(1) by (simp add: worker_step_def)
  then show ?thesis using assms(2) by (induction sched) simp_all
qed

lemma step_workers_length:
  assumes st: "worker_step sbu B cap w s = Some s'"
  shows "length (workers s') = length (workers s)"
proof -
  have en: "w < length (workers s)" "\<not> panicked s" using step_enabled [OF st] by simp_all
  show ?thesis
  proof (cases "workers s ! w")
    case Exited
    then show ?thesis using st by (simp add: step_exited)
  next
    case Receiving
    then show ?thesis
      using st by (auto simp add: step_receiving [OF en Receiving] split: list.splits)
  next
    case (Holding p)
    then show ?thesis using st by (auto simp add: step_holding [OF en Holding] split: if_splits)
  next
    case (Reporting p r)
    then show ?thesis using st by (auto simp add: step_reporting [OF en Reporting] split: if_splits)
  qed
qed

lemma exec_inv:
  assumes "pool_inv sbu B ps s" "\<not> panicked s" "\<forall>p\<in>set ps. size_ok B p"
  shows "pool_inv sbu B ps (exec sbu B cap sched s) \<and> \<not> panicked (exec sbu B cap sched s) \<and>
         length (workers (exec sbu B cap sched s)) = length (workers s)"
  using assms
proof (induction sched arbitrary: s)
  case Nil
  then show ?case by simp
next
  case (Cons w ws)
  show ?case
  proof (cases "worker_step sbu B cap w s")
    case None
    then show ?thesis using Cons.IH [of s] Cons.prems by simp
  next
    case (Some t)
    have "length (workers t) = length (workers s)" using step_workers_length [OF Some] .
    then show ?thesis
      using Cons.IH [OF pool_inv_step [OF Cons.prems(1) Some] step_no_panic [OF Cons.prems(1,3) Some] Cons.prems(3)] Some
      by simp
  qed
qed

lemma length_ReadAt: "length (fst (ReadAt f n off)) = n"
  by (simp add: ReadAt_def Let_def split: option.splits)

lemma length_sr_Read: "length (fst (sr_Read r n)) = n"
proof (cases "sr_off r \<ge> sr_limit r")
  case True
  then show ?thesis by (simp add: sr_Read_def)
next
  case False
  let ?m = "if int n > sub64 (sr_limit r) (sr_off r) then nat (sub64 (sr_limit r) (sr_off r)) else n"
  have m: "?m \<le> n" by auto
  obtain buf err where b: "ReadAt (sr_r r) ?m (sr_off r) = (buf, err)" by force
  then have "length buf = ?m" using length_ReadAt [of "sr_r r" ?m "sr_off r"] by simp
  then have "length (buf @ replicate (n - ?m) 0) = n" using m by simp
  then show ?thesis using False b by (simp add: sr_Read_def Let_def)
qed

lemma scanner_page_reader:
  assumes i: "int64 fileSize" and r: "storageBlobPageSplit f fileSize = Some (Inr ps)"
    and p: "p \<in> set ps"
  shows "sectionReader p = NewSectionReader f (offset p) (page_length p)"
proof -
  have "ps = map (to_page f) (map page_range ps)"
    using split_cases [OF i, of f] r by auto
  then obtain q where "p = to_page f (page_range q)" "q \<in> set ps"
    using p by (metis (no_types, lifting) image_iff list.set_map)
  then have e: "p = to_page f \<lparr>br_offset = offset q, br_length = page_length q\<rparr>"
    by (simp add: page_range_def)
  have "offset p = offset q" using e by (simp add: to_page_def)
  moreover have "page_range p = page_range q"
  proof -
    have "range_ok (page_range q)" "0 \<le> offset q" "offset q + page_length q \<le> blobSize_of fileSize"
      using split_sorted(2) [OF i r] \<open>q \<in> set ps\<close> by blast+
    moreover have "blobSize_of fileSize < 2 ^ 63" using int64_blobSize_of [OF i] by (simp add: int64_def)
    ultimately have "page_range (to_page f (page_range q)) = page_range q"
      by (intro page_range_to_page) (simp_all add: range_ok_def page_range_def)
    then show ?thesis using \<open>p = to_page f (page_range q)\<close> by simp
  qed
  then have "page_length p = page_length q" by (simp add: page_range_def)
  ultimately show ?thesis using e by (simp add: to_page_def)
qed

lemma scanner_page_read:
  assumes i: "int64 fileSize" and r: "storageBlobPageSplit f fileSize = Some (Inr ps)"
    and p: "p \<in> set ps" and n: "int n \<le> page_length p"
  shows "sr_Read (sectionReader p) n = ReadAt f n (offset p)"
proof -
  have q: "0 \<le> offset p" "range_ok (page_range p)" "offset p + page_length p \<le> blobSize_of fileSize"
    using split_sorted(2) [OF i r] p by blast+
  have bB: "blobSize_of fileSize < 2 ^ 63" using int64_blobSize_of [OF i] by (simp add: int64_def)
  have l: "0 < page_length p" using q(2) by (simp add: range_ok_def page_range_def)
  have a: "sub64 maxint64 (page_length p) = maxint64 - page_length p"
    using l q bB by (simp add: sub64_def wrap64_id int64_def maxint64_def)
  have b: "offset p \<le> maxint64 - page_length p" using q bB by (simp add: maxint64_def)
  have c: "add64 (page_length p) (offset p) = page_length p + offset p"
    using l q bB by (simp add: add64_def wrap64_id int64_def)
  have d: "sub64 (page_length p + offset p) (offset p) = page_length p"
    using l q bB by (simp add: sub64_def wrap64_id int64_def)
  have s: "sectionReader p = \<lparr>sr_r = f, sr_base = offset p, sr_off = offset p,
                               sr_limit = page_length p + offset p\<rparr>"
    unfolding scanner_page_reader [OF i r p] by (simp add: NewSectionReader_def a b c)
  obtain buf err where e: "ReadAt f n (offset p) = (buf, err)" by force
  show ?thesis unfolding s using l n d e by (simp add: sr_Read_def Let_def)
qed

lemma scanner_sizes_ok:
  assumes i: "int64 fileSize" and nn: "0 \<le> fileSize"
    and r: "storageBlobPageSplit f fileSize = Some (Inr ps)"
  shows "\<forall>p\<in>set ps. size_ok fileSize p"
proof
  fix p assume p: "p \<in> set ps"
  have "range_ok (page_range p)" using split_sorted(2) [OF i r] p by blast
  then have l: "0 < page_length p" by (simp add: range_ok_def page_range_def)
  have "offset p < fileSize" using page_bounds_exact(2) [OF i r p nn] .
  then show "size_ok fileSize p"
    using l unfolding size_ok_def page_bounds_exact(1) [OF i r p] by simp
qed

lemma process_page_scanner:
  assumes i: "int64 fileSize" and nn: "0 \<le> fileSize"
    and r: "storageBlobPageSplit f fileSize = Some (Inr ps)" and p: "p \<in> set ps"
  shows "process_page sbu fileSize p =
         (let e = min (offset p + page_length p - 1) (fileSize - 1);
              chunk = fst (ReadAt f (nat (e - offset p + 1)) (offset p));
              input = PutPageUpdate (AccountName sbu) (ContainerName sbu) (BlobName sbu)
                        (offset p) e chunk
          in case fault f (offset p) of
               Some s \<Rightarrow> (None, Some (ErrorReadingSource (Source sbu) (offset p) (External s)))
             | None \<Rightarrow> (Some input,
                        map_option (ErrorWritingPage (offset p) (Source sbu)) (Client sbu input)))"
proof -
  let ?e = "min (offset p + page_length p - 1) (fileSize - 1)"
  let ?n = "nat (?e - offset p + 1)"
  have o: "0 \<le> offset p" using split_sorted(2) [OF i r] p by blast
  have "range_ok (page_range p)" using split_sorted(2) [OF i r] p by blast
  then have "0 < page_length p" by (simp add: range_ok_def page_range_def)
  then have "int ?n \<le> page_length p" using page_bounds_exact(2) [OF i r p nn] by auto
  note rd = scanner_page_read [OF i r p this]
  obtain buf err where e: "ReadAt f ?n (offset p) = (buf, err)" by force
  show ?thesis
  proof (cases "fault f (offset p)")
    case None
    then have "read_failed err = None" using ReadAt_ok [OF o None, of ?n] e by simp
    then show ?thesis
      unfolding process_page_def page_bounds_exact(1) [OF i r p]
      using rd e None by (simp add: Let_def)
  next
    case (Some s)
    then have "read_failed err = Some (External s)" using ReadAt_fault [OF o Some, of ?n] e by simp
    then show ?thesis
      unfolding process_page_def page_bounds_exact(1) [OF i r p]
      using rd e Some by (simp add: Let_def)
  qed
qed

lemma example_pages:
  "storageBlobPageSplit example_file 10000 = Some (Inr [page1, page2])"
  "offset page1 = 0" "page_length page1 = 4096" "offset page2 = 8192" "page_length page2 = 4096"
  by (simp_all add: example_split page1_def page2_def to_page_simps)

lemma example_process:
  "process_page sbu 10000 page1 =
     (Some (write1 sbu), map_option (ErrorWritingPage 0 (Source sbu)) (Client sbu (write1 sbu)))"
  "process_page sbu 10000 page2 =
     (Some (write2 sbu), map_option (ErrorWritingPage 8192 (Source sbu)) (Client sbu (write2 sbu)))"
proof -
  have i: "int64 10000" "(0::int) \<le> 10000" by (simp_all add: int64_def)
  have f: "fault example_file x = None" for x by (simp add: example_file_def)
  show "process_page sbu 10000 page1 =
     (Some (write1 sbu), map_option (ErrorWritingPage 0 (Source sbu)) (Client sbu (write1 sbu)))"
    using process_page_scanner [OF i example_pages(1), of page1 sbu]
    by (simp add: example_pages f write1_def Let_def)
  show "process_page sbu 10000 page2 =
     (Some (write2 sbu), map_option (ErrorWritingPage 8192 (Source sbu)) (Client sbu (write2 sbu)))"
    using process_page_scanner [OF i example_pages(1), of page2 sbu]
    by (simp add: example_pages f write2_def Let_def)
qed

lemma example_sizes: "size_ok 10000 page1" "size_ok 10000 page2"
  using scanner_sizes_ok [OF _ _ example_pages(1)] by (simp_all add: int64_def)

lemma example_run:
  "run sbu 10000 2 [0, 1, 0, 1, 0, 1] (launch [page1, page2] 2) =
   Some \<lparr>pages = [], errors = List.map_filter id [page_outcome sbu 10000 page1, page_outcome sbu 10000 page2],
         wg = 0, workers = [Receiving, Receiving],
         calls = [write1 sbu, write2 sbu], completed = [page1, page2], panicked = False\<rparr>"
proof -
  have r: "replicate 2 Receiving = [Receiving, Receiving]" by (simp add: numeral_2_eq_2)
  show ?thesis
    by (simp add: launch_def r wait_over_def step_receiving step_holding step_reporting
        example_sizes page_call_def example_process List.map_filter_def)
qed

lemma upload_returns:
  assumes r: "storageBlobPageSplit f fileSize = Some (Inr ps)"
    and u: "pageUploadFromSource env sbu f fileSize = Some (res, cs)"
  shows "\<exists>s. pool_inv sbu fileSize ps s \<and> wait_over s \<and> cs = calls s \<and>
             res = (case errors s of [] \<Rightarrow> None
                    | e # rest \<Rightarrow> Some (ErrorWhileUploading (Source sbu) e))"
proof -
  let ?k = "mul64 (Parallelism sbu) (NumCPU env)"
  obtain s where s: "run sbu fileSize (length ps) (schedule env) (launch ps ?k) = Some s"
    using u r by (auto simp add: pageUploadFromSource_def Let_def split: option.splits)
  note w = run_returns [OF pool_inv_launch s]
  have "cs = calls s \<and> res = (case errors s of [] \<Rightarrow> None
                    | e # rest \<Rightarrow> Some (ErrorWhileUploading (Source sbu) e))"
    using u r s by (auto simp add: pageUploadFromSource_def Let_def split: list.splits)
  then show ?thesis using w by blast
qed

lemma map_filter_Nil_iff: "(List.map_filter g xs = []) = (\<forall>x\<in>set xs. g x = None)"
  by (induction xs) (auto simp add: List.map_filter_def)

lemma in_map_filter: "(y \<in> set (List.map_filter g xs)) = (\<exists>x\<in>set xs. g x = Some y)"
  by (induction xs) (auto simp add: List.map_filter_def)

lemma scanner_calls_within:
  assumes i: "int64 fileSize" and nn: "0 \<le> fileSize"
    and r: "storageBlobPageSplit f fileSize = Some (Inr ps)" and p: "p \<in> set ps"
    and c: "page_call sbu fileSize p = Some c"
  shows "writes_within fileSize c"
proof -
  have q: "0 \<le> offset p" "range_ok (page_range p)" using split_sorted(2) [OF i r] p by blast+
  have l: "0 < page_length p" using q(2) by (simp add: range_ok_def page_range_def)
  have lt: "offset p < fileSize" using page_bounds_exact(2) [OF i r p nn] .
  show ?thesis
    using c q(1) l lt unfolding page_call_def process_page_scanner [OF i nn r p]
    by (auto simp add: Let_def split: option.splits)
qed

lemma example_outcomes:
  "page_outcome example_upload 10000 page1 = None"
  "page_outcome example_upload 10000 page2 = None"
  "page_outcome failing_upload 10000 page1 = None"
  "page_outcome failing_upload 10000 page2 =
     Some (ErrorWritingPage 8192 ''disk.vhd'' (External ''timeout''))"
  "page_call sbu 10000 page1 = Some (write1 sbu)"
  "page_call sbu 10000 page2 = Some (write2 sbu)"
  by (simp_all add: page_outcome_def page_call_def example_process example_upload_def
      failing_upload_def failing_client_def write1_def write2_def)

lemma example_workerCount:
  "mul64 (Parallelism example_upload) (NumCPU (example_env f sched)) = 2"
  "mul64 (Parallelism failing_upload) (NumCPU (example_env f sched)) = 2"
  "mul64 (Parallelism (example_upload\<lparr>Parallelism := 0\<rparr>)) (NumCPU (example_env f sched)) = 0"
  by (simp_all add: mul64_def wrap64_def example_upload_def failing_upload_def example_env_def)

lemma example_sources: "Source example_upload = ''disk.vhd''" "Source failing_upload = ''disk.vhd''"
  by (simp_all add: failing_upload_def example_upload_def)

lemma upload_eval:
  assumes "storageBlobPageSplit f fileSize = Some (Inr ps)"
    and "run sbu fileSize (length ps) (schedule env)
           (launch ps (mul64 (Parallelism sbu) (NumCPU env))) = Some s"
  shows "pageUploadFromSource env sbu f fileSize =
         Some (case errors s of [] \<Rightarrow> None
               | e # rest \<Rightarrow> Some (ErrorWhileUploading (Source sbu) e), calls s)"
  using assms by (simp add: pageUploadFromSource_def Let_def split: list.splits)

lemma example_run_env:
  assumes "mul64 (Parallelism sbu) (NumCPU (example_env example_file [0, 1, 0, 1, 0, 1])) = 2"
  shows "run sbu 10000 (length [page1, page2])
           (schedule (example_env example_file [0, 1, 0, 1, 0, 1]))
           (launch [page1, page2]
              (mul64 (Parallelism sbu) (NumCPU (example_env example_file [0, 1, 0, 1, 0, 1])))) =
         Some \<lparr>pages = [], errors = List.map_filter id [page_outcome sbu 10000 page1, page_outcome sbu 10000 page2],
         wg = 0, workers = [Receiving, Receiving],
         calls = [write1 sbu, write2 sbu], completed = [page1, page2], panicked = False\<rparr>"
proof -
  have l: "length [page1, page2] = 2" by simp
  have sch: "schedule (example_env example_file [0, 1, 0, 1, 0, 1]) = [0, 1, 0, 1, 0, 1]"
    by (simp add: example_env_def)
  show ?thesis unfolding assms l sch by (rule example_run)
qed

lemma example_upload_run:
  "pageUploadFromSource (example_env example_file [0, 1, 0, 1, 0, 1]) example_upload
     example_file 10000 =
   Some (None, [write1 example_upload, write2 example_upload])"
  unfolding upload_eval [OF example_pages(1) example_run_env [OF example_workerCount(1)]]
  by (simp add: example_outcomes List.map_filter_def)

lemma failing_upload_run:
  "pageUploadFromSource (example_env example_file [0, 1, 0, 1, 0, 1]) failing_upload
     example_file 10000 =
   Some (Some (ErrorWhileUploading ''disk.vhd''
                 (ErrorWritingPage 8192 ''disk.vhd'' (External ''timeout''))),
         [write1 failing_upload, write2 failing_upload])"
  unfolding upload_eval [OF example_pages(1) example_run_env [OF example_workerCount(2)]]
  by (simp add: example_outcomes List.map_filter_def example_sources)

section \<open>The claims about the scanner\<close>

text \<open>
  C9, as amended. For every file size from 0 to \<open>2 ^ 63 - 4096\<close>, the padded blob size
  that the scanner computes is the smallest multiple of the page unit that is greater
  than or equal to the file size; a size that is a multiple of the page unit is
  unchanged.
\<close>

theorem C9_padded_size_smallest_multiple:
  assumes "0 \<le> fileSize" and "fileSize \<le> 2 ^ 63 - minPageSize"
  shows "smallest_multiple_ge fileSize (blobSize_of fileSize) \<and>
         (minPageSize dvd fileSize \<longrightarrow> blobSize_of fileSize = fileSize)"
proof -
  note e = blobSize_of_exact [OF assms]
  have a: "aligned (blobSize_of fileSize)" by (rule aligned_blobSize_of)
  have least: "blobSize_of fileSize \<le> m" if m: "minPageSize dvd m" "fileSize \<le> m" for m
  proof (rule ccontr)
    assume "\<not> blobSize_of fileSize \<le> m"
    then have "m + minPageSize \<le> blobSize_of fileSize"
      using aligned_gap [of m "blobSize_of fileSize"] a m(1) by (simp add: aligned_def)
    then show False using e m(2) by simp
  qed
  have "blobSize_of fileSize = fileSize" if "minPageSize dvd fileSize"
    using that by (simp add: blobSize_of_def rem64_dvd aligned_def)
  then show ?thesis
    unfolding smallest_multiple_ge_def using a e least by (simp add: aligned_def)
qed

theorem C9_padded_size_witness:
  "(0::int) \<le> 10000 \<and> (10000::int) \<le> 2 ^ 63 - minPageSize \<and>
   smallest_multiple_ge 10000 (blobSize_of 10000) \<and> blobSize_of 10000 = 12288 \<and>
   blobSize_of 8192 = 8192"
proof -
  have h: "(0::int) \<le> 10000" "(10000::int) \<le> 2 ^ 63 - minPageSize"
    "(0::int) \<le> 8192" "(8192::int) \<le> 2 ^ 63 - minPageSize"
    by (simp_all add: minPageSize_def)
  have "minPageSize dvd 8192" by (simp add: minPageSize_def)
  then show ?thesis
    using C9_padded_size_smallest_multiple [OF h(1,2)]
      C9_padded_size_smallest_multiple [OF h(3,4)] h
    by (simp add: blobSize_of_10000)
qed

theorem C9_padded_size_overflow_counterexample:
  "(0::int) \<le> 2 ^ 63 - 1 \<and> int64 (2 ^ 63 - 1) \<and>
   blobSize_of (2 ^ 63 - 1) = - (2 ^ 63) \<and>
   \<not> smallest_multiple_ge (2 ^ 63 - 1) (blobSize_of (2 ^ 63 - 1))"
proof -
  have b: "blobSize_of (2 ^ 63 - 1) = - (2 ^ 63)"
    by (simp add: blobSize_of_def rem64_def add64_def sub64_def wrap64_def minPageSize_def)
  show ?thesis unfolding b by (simp add: int64_def smallest_multiple_ge_def)
qed

text \<open>
  C3. For every source file and size, the range list that the scanner returns has no
  two ranges that overlap (each range ends at or before the offset of every later one),
  every offset is a multiple of the page unit, every length is positive and at most the
  maximum range size, and the offsets are strictly ascending.
\<close>

theorem C3_ranges_disjoint_aligned_ascending:
  assumes "int64 fileSize" and "storageBlobPageSplit f fileSize = Some (Inr ps)"
  shows "sorted_wrt (\<lambda>p q. offset p + page_length p \<le> offset q) ps \<and>
         sorted_wrt (\<lambda>p q. offset p < offset q) ps \<and>
         (\<forall>p\<in>set ps. minPageSize dvd offset p \<and> 0 < page_length p \<and>
                      page_length p \<le> maxPageSize)"
proof -
  note s = split_sorted [OF assms]
  have ok: "\<forall>p\<in>set ps. range_ok (page_range p)" using s(2) by blast
  then have 3: "\<forall>p\<in>set ps. minPageSize dvd offset p \<and> 0 < page_length p \<and>
                      page_length p \<le> maxPageSize"
    by (simp add: range_ok_def page_range_def aligned_def)
  have "offset p < offset q" if "p \<in> set ps" "offset p + page_length p \<le> offset q" for p q
    using that 3 by force
  then have 2: "sorted_wrt (\<lambda>p q. offset p < offset q) ps"
    using sorted_wrt_mono_rel [OF _ s(1), of "\<lambda>p q. offset p < offset q"] by blast
  show ?thesis using s(1) 2 3 by blast
qed

theorem C3_ranges_witness:
  "int64 10000 \<and>
   storageBlobPageSplit example_file 10000 =
     Some (Inr [to_page example_file \<lparr>br_offset = 0, br_length = 4096\<rparr>,
                to_page example_file \<lparr>br_offset = 8192, br_length = 4096\<rparr>]) \<and>
   sorted_wrt (\<lambda>p q. offset p + page_length p \<le> offset q)
     [to_page example_file \<lparr>br_offset = 0, br_length = 4096\<rparr>,
      to_page example_file \<lparr>br_offset = 8192, br_length = 4096\<rparr>] \<and>
   sorted_wrt (\<lambda>p q. offset p < offset q)
     [to_page example_file \<lparr>br_offset = 0, br_length = 4096\<rparr>,
      to_page example_file \<lparr>br_offset = 8192, br_length = 4096\<rparr>] \<and>
   page_length (to_page example_file \<lparr>br_offset = 8192, br_length = 4096\<rparr>) \<le> maxPageSize"
proof -
  have i: "int64 10000" by (simp add: int64_def)
  show ?thesis
    using C3_ranges_disjoint_aligned_ascending [OF i example_split] i example_split
    by simp
qed

text \<open>
  C2, as amended. For every source file of at most \<open>2 ^ 63 - 4096\<close> bytes that is read
  without a fault, the ranges that the scanner returns are made of whole page units
  below the padded blob size, and a page unit lies in a range exactly when it holds a
  non-zero byte, so that every non-zero byte of the file is in a range; an all-zero
  file yields no range; and a file with no zero byte yields ranges whose lengths add up
  to the padded blob size, each one but the last of the maximum range size.
\<close>

theorem C2_ranges_cover_nonzero_pages:
  assumes size: "int (length (contents f)) = fileSize"
    and bound: "fileSize \<le> 2 ^ 63 - minPageSize"
    and nf: "\<forall>j. fault f j = None"
  shows "\<exists>ps. storageBlobPageSplit f fileSize = Some (Inr ps) \<and>
           (\<forall>p\<in>set ps. 0 \<le> offset p \<and> minPageSize dvd offset p \<and>
                        minPageSize dvd page_length p \<and>
                        offset p + page_length p \<le> blobSize_of fileSize) \<and>
           (\<forall>j. minPageSize dvd j \<and> 0 \<le> j \<and> j < blobSize_of fileSize \<longrightarrow>
                in_some_range ps j = has_nonzero_byte f j) \<and>
           (\<forall>k<length (contents f). contents f ! k \<noteq> 0 \<longrightarrow> in_some_range ps (int k)) \<and>
           ((\<forall>k<length (contents f). contents f ! k = 0) \<longrightarrow> ps = []) \<and>
           ((\<forall>k<length (contents f). contents f ! k \<noteq> 0) \<longrightarrow>
              sum_list (map page_length ps) = blobSize_of fileSize \<and>
              (\<forall>p\<in>set (butlast ps). page_length p = maxPageSize))"
proof -
  have f0: "0 \<le> fileSize" using size by simp
  have i: "int64 fileSize" using f0 bound minPageSize_pos by (simp add: int64_def)
  have "no_fault f 0 j" for j using nf by (simp add: no_fault_def)
  then obtain ps where r: "storageBlobPageSplit f fileSize = Some (Inr ps)"
    using split_cases [OF i, of f] nf by fastforce
  have le: "int (length (contents f)) \<le> blobSize_of fileSize"
    using blobSize_of_exact [OF f0 bound] size by simp
  have 1: "\<forall>p\<in>set ps. 0 \<le> offset p \<and> minPageSize dvd offset p \<and>
                        minPageSize dvd page_length p \<and>
                        offset p + page_length p \<le> blobSize_of fileSize"
    using split_sorted(2) [OF i r] by (simp add: range_ok_def page_range_def aligned_def)
  have 2: "\<forall>j. minPageSize dvd j \<and> 0 \<le> j \<and> j < blobSize_of fileSize \<longrightarrow>
                in_some_range ps j = has_nonzero_byte f j"
    using split_cover_page [OF i r] by (simp add: aligned_def)
  have 3: "\<forall>k<length (contents f). contents f ! k \<noteq> 0 \<longrightarrow> in_some_range ps (int k)"
    using split_cover_byte [OF i r le] by blast
  have 4: "(\<forall>k<length (contents f). contents f ! k = 0) \<longrightarrow> ps = []"
    using split_all_zero [OF i r] by blast
  have 5: "(\<forall>k<length (contents f). contents f ! k \<noteq> 0) \<longrightarrow>
              sum_list (map page_length ps) = blobSize_of fileSize \<and>
              (\<forall>p\<in>set (butlast ps). page_length p = maxPageSize)"
    using split_all_nonzero [OF size bound r] by blast
  show ?thesis using r 1 2 3 4 5 by blast
qed

theorem C2_ranges_cover_witness:
  "int (length (contents example_file)) = 10000 \<and> (10000::int) \<le> 2 ^ 63 - minPageSize \<and>
   fault example_file 0 = None \<and> contents example_file ! 9000 \<noteq> 0 \<and>
   in_some_range [to_page example_file \<lparr>br_offset = 0, br_length = 4096\<rparr>,
                  to_page example_file \<lparr>br_offset = 8192, br_length = 4096\<rparr>] 9000"
proof -
  have h: "int (length (contents example_file)) = 10000" "(10000::int) \<le> 2 ^ 63 - minPageSize"
    using example_file_props(1) by (simp_all add: minPageSize_def)
  have k: "(9000::nat) < length (contents example_file)" "contents example_file ! 9000 \<noteq> 0"
    using example_file_props(1,2) by simp_all
  obtain ps where r: "storageBlobPageSplit example_file 10000 = Some (Inr ps)"
    and c: "\<forall>k<length (contents example_file). contents example_file ! k \<noteq> 0 \<longrightarrow> in_some_range ps (int k)"
    using C2_ranges_cover_nonzero_pages [OF h example_file_props(3)] by blast
  have "in_some_range ps (int 9000)" using c k by blast
  moreover have "ps = [to_page example_file \<lparr>br_offset = 0, br_length = 4096\<rparr>,
                  to_page example_file \<lparr>br_offset = 8192, br_length = 4096\<rparr>]"
    using r by (simp add: example_split)
  ultimately have "in_some_range [to_page example_file \<lparr>br_offset = 0, br_length = 4096\<rparr>,
                  to_page example_file \<lparr>br_offset = 8192, br_length = 4096\<rparr>] 9000"
    by simp
  then show ?thesis using h k example_file_props(3) by simp
qed

theorem C2_huge_file_counterexample:
  "int (length (contents huge_file)) = 2 ^ 63 - 1 \<and> fault huge_file 0 = None \<and>
   contents huge_file ! 0 \<noteq> 0 \<and>
   storageBlobPageSplit huge_file (2 ^ 63 - 1) = Some (Inr []) \<and>
   \<not> in_some_range [] 0"
proof -
  have b: "blobSize_of (2 ^ 63 - 1) = - (2 ^ 63)"
    by (simp add: blobSize_of_def rem64_def add64_def sub64_def wrap64_def minPageSize_def)
  have s: "storageBlobPageSplit huge_file (2 ^ 63 - 1) = Some (Inr [])"
    unfolding split_unfold b by (simp add: scan_loop_done)
  have n: "contents huge_file ! 0 = 1" unfolding huge_file_def by simp
  have l: "int (length (contents huge_file)) = 2 ^ 63 - 1" unfolding huge_file_def by simp
  show ?thesis using s n l by (simp add: in_some_range_def huge_file_def)
qed

text \<open>
  C6. For a file of 10000 bytes whose bytes in [4096, 8191] are zero and whose other
  bytes are not, read without a fault, the scanner returns exactly two ranges, of
  offset 0 and length 4096 and of offset 8192 and length 4096, and the padded blob size
  is 12288 (page unit 4096, maximum range size 4194304).
\<close>

theorem C6_scenario_two_ranges:
  assumes "length (contents f) = 10000"
    and "\<forall>k<10000. (contents f ! k = 0) = (4096 \<le> k \<and> k < 8192)"
    and "\<forall>j. fault f j = None"
  shows "\<exists>p q. storageBlobPageSplit f 10000 = Some (Inr [p, q]) \<and>
           offset p = 0 \<and> page_length p = 4096 \<and>
           offset q = 8192 \<and> page_length q = 4096 \<and>
           blobSize_of 10000 = 12288 \<and> minPageSize = 4096 \<and> maxPageSize = 4194304"
proof -
  have "offset (to_page f \<lparr>br_offset = 0, br_length = 4096\<rparr>) = 0"
    "page_length (to_page f \<lparr>br_offset = 0, br_length = 4096\<rparr>) = 4096"
    "offset (to_page f \<lparr>br_offset = 8192, br_length = 4096\<rparr>) = 8192"
    "page_length (to_page f \<lparr>br_offset = 8192, br_length = 4096\<rparr>) = 4096"
    by (simp_all add: to_page_simps)
  then show ?thesis
    using split_scenario [OF assms] blobSize_of_10000
    by (auto simp add: minPageSize_def maxPageSize_def)
qed

theorem C6_scenario_witness:
  "length (contents example_file) = 10000 \<and> contents example_file ! 5000 = 0 \<and>
   contents example_file ! 9999 \<noteq> 0 \<and> fault example_file 0 = None \<and>
   (\<exists>p q. storageBlobPageSplit example_file 10000 = Some (Inr [p, q]) \<and>
      offset p = 0 \<and> page_length p = 4096 \<and> offset q = 8192 \<and> page_length q = 4096)"
proof -
  have "contents example_file ! 5000 = 0" "contents example_file ! 9999 \<noteq> 0"
    using example_file_props(2) by simp_all
  then show ?thesis
    using C6_scenario_two_ranges [OF example_file_props] example_file_props(1,3) by auto
qed

text \<open>
  C8. If the read of a page during the scan fails with an error other than end-of-file
  (at the first such page, of offset \<open>j\<close>), the scan returns the error tagged with that
  offset and no range list, and the coordinator returns that error, wrapped, without
  any call to the storage client: no range is uploaded.
\<close>

theorem C8_scan_read_error_aborts:
  assumes "int64 fileSize"
    and "minPageSize dvd j" and "0 \<le> j" and "j < blobSize_of fileSize"
    and "fault f j = Some s"
    and "\<forall>i. 0 \<le> i \<and> i < j \<and> minPageSize dvd i \<longrightarrow> fault f i = None"
  shows "storageBlobPageSplit f fileSize = Some (Inl (CouldNotReadChunk j (External s))) \<and>
         pageUploadFromSource env sbu f fileSize =
           Some (Some (ErrorSplitting (Source sbu) (CouldNotReadChunk j (External s))), [])"
proof -
  let ?B = "blobSize_of fileSize"
  have aB: "aligned ?B" by (rule aligned_blobSize_of)
  have bB: "?B < 2 ^ 63" using int64_blobSize_of [OF assms(1)] by (simp add: int64_def)
  have nf: "no_fault f 0 j" using assms(6) by (simp add: no_fault_def aligned_def)
  have aj: "aligned j" using assms(2) by (simp add: aligned_def)
  have "scan_loop f ?B 0 \<lparr>br_offset = 0, br_length = 0\<rparr> [] =
        Some (Inl (CouldNotReadChunk j (External s)))"
    using scan_from_start_err [OF aB bB aj assms(3,4) nf assms(5)] .
  then have r: "storageBlobPageSplit f fileSize = Some (Inl (CouldNotReadChunk j (External s)))"
    by (simp add: split_unfold)
  then show ?thesis by (simp add: pageUploadFromSource_def)
qed

theorem C8_scan_read_error_witness:
  "int64 10000 \<and> minPageSize dvd 4096 \<and> (4096::int) < blobSize_of 10000 \<and>
   fault faulty_file 4096 = Some ''input/output error'' \<and> fault faulty_file 0 = None \<and>
   storageBlobPageSplit faulty_file 10000 =
     Some (Inl (CouldNotReadChunk 4096 (External ''input/output error''))) \<and>
   pageUploadFromSource (example_env faulty_file [0, 1]) example_upload faulty_file 10000 =
     Some (Some (ErrorSplitting ''disk.vhd''
                   (CouldNotReadChunk 4096 (External ''input/output error''))), [])"
proof -
  have h: "int64 10000" "minPageSize dvd 4096" "(0::int) \<le> 4096" "(4096::int) < blobSize_of 10000"
    "fault faulty_file 4096 = Some ''input/output error''"
    "\<forall>i. 0 \<le> i \<and> i < 4096 \<and> minPageSize dvd i \<longrightarrow> fault faulty_file i = None"
    by (simp_all add: int64_def minPageSize_def blobSize_of_10000 faulty_file_def)
  have "fault faulty_file 0 = None" by (simp add: faulty_file_def)
  then show ?thesis
    using C8_scan_read_error_aborts [OF h, of "example_env faulty_file [0, 1]" example_upload] h(1,2,4,5)
    by (simp add: example_upload_def)
qed

section \<open>The claims about the workers, the coordinator and the dispatch\<close>

text \<open>
  C5. For every range queued by the scanner, the worker that holds it computes
  \<open>start = range.offset\<close>, \<open>end = min(range.offset + range.length - 1, targetBlobSize - 1)\<close>
  and \<open>size = end - start + 1\<close> (no \<open>int64\<close> operation wraps around), the end is at most
  \<open>targetBlobSize - 1\<close>, and its turn either makes no call (the read failed) or makes one
  write call with these \<open>start\<close> and \<open>end\<close> and a content of \<open>size\<close> bytes.
\<close>

theorem C5_worker_transmit_boundaries:
  assumes "int64 fileSize" and "0 \<le> fileSize"
    and "storageBlobPageSplit f fileSize = Some (Inr ps)" and "p \<in> set ps"
    and "workers s ! w = Holding p"
    and "worker_step sbu fileSize cap w s = Some s'"
    and "e = min (offset p + page_length p - 1) (fileSize - 1)"
  shows "page_bounds fileSize p = (offset p, e, e - offset p + 1) \<and>
         e \<le> fileSize - 1 \<and>
         (calls s' = calls s \<or>
          (\<exists>chunk. calls s' = calls s @ [PutPageUpdate (AccountName sbu) (ContainerName sbu)
                                            (BlobName sbu) (offset p) e chunk] \<and>
                   int (length chunk) = e - offset p + 1))"
proof -
  note i = assms(1) and nn = assms(2) and r = assms(3) and p = assms(4)
  have b: "page_bounds fileSize p = (offset p, e, e - offset p + 1)"
    using page_bounds_exact(1) [OF i r p] assms(7) by simp
  have en: "w < length (workers s)" "\<not> panicked s" using step_enabled [OF assms(6)] by simp_all
  have ok: "size_ok fileSize p" using scanner_sizes_ok [OF i nn r] p by blast
  then have sz: "0 \<le> e - offset p + 1" by (simp add: size_ok_def b)
  have s': "calls s' = calls s @ List.map_filter (page_call sbu fileSize) [p]"
    using assms(6) ok by (auto simp add: step_holding [OF en assms(5)])
  have c: "calls s' = calls s \<or>
          (\<exists>chunk. calls s' = calls s @ [PutPageUpdate (AccountName sbu) (ContainerName sbu)
                                            (BlobName sbu) (offset p) e chunk] \<and>
                   int (length chunk) = e - offset p + 1)"
  proof (cases "fault f (offset p)")
    case (Some x)
    then have "page_call sbu fileSize p = None"
      unfolding page_call_def process_page_scanner [OF i nn r p] by (simp add: Let_def)
    then show ?thesis using s' by (simp add: List.map_filter_def)
  next
    case None
    let ?chunk = "fst (ReadAt f (nat (e - offset p + 1)) (offset p))"
    have "page_call sbu fileSize p = Some (PutPageUpdate (AccountName sbu) (ContainerName sbu)
             (BlobName sbu) (offset p) e ?chunk)"
      unfolding page_call_def process_page_scanner [OF i nn r p] using None assms(7)
      by (simp add: Let_def)
    moreover have "int (length ?chunk) = e - offset p + 1" using sz by (simp add: length_ReadAt)
    ultimately show ?thesis using s' by (simp add: List.map_filter_def)
  qed
  show ?thesis using b c assms(7) by simp
qed

theorem C5_worker_boundaries_witness:
  "int64 10000 \<and> storageBlobPageSplit example_file 10000 = Some (Inr [page1, page2]) \<and>
   page_bounds 10000 page2 = (8192, 9999, 1808) \<and>
   (\<exists>s'. worker_step example_upload 10000 2 0
            \<lparr>pages = [], errors = [], wg = 1, workers = [Holding page2], calls = [],
             completed = [page1], panicked = False\<rparr> = Some s' \<and>
          calls s' = [write2 example_upload])"
proof -
  let ?s = "\<lparr>pages = [], errors = [], wg = 1, workers = [Holding page2], calls = [],
             completed = [page1], panicked = False\<rparr>"
  let ?s' = "?s\<lparr>calls := calls ?s @ List.map_filter (page_call example_upload 10000) [page2],
                workers := (workers ?s)[0 := Reporting page2 (page_outcome example_upload 10000 page2)]\<rparr>"
  have i: "int64 10000" "(0::int) \<le> 10000" by (simp_all add: int64_def)
  have st: "worker_step example_upload 10000 2 0 ?s = Some ?s'"
    by (simp add: step_holding example_sizes)
  have m: "page2 \<in> set [page1, page2]" "workers ?s ! 0 = Holding page2" by simp_all
  have e: "(9999::int) = min (offset page2 + page_length page2 - 1) (10000 - 1)"
    by (simp add: example_pages)
  have c: "calls ?s' = [write2 example_upload]"
    by (simp add: page_call_def example_process List.map_filter_def)
  have "page_bounds 10000 page2 = (8192, 9999, 1808)"
    using C5_worker_transmit_boundaries [OF i example_pages(1) m st e]
    by (simp add: example_pages)
  then show ?thesis using i(1) example_pages(1) st c by blast
qed

text \<open>
  C4. For every upload run that returns, every queued range has been processed once
  (\<open>done\<close> is the list of the ranges in the order in which the workers completed them),
  whatever failed: the write calls made are those of all the ranges whose read succeeded.
  If a range failed, the coordinator returns one error, that of the first failed range
  in the order of completion; if none failed, it returns success.
\<close>

theorem C4_first_error_all_ranges_attempted:
  assumes "int64 fileSize"
    and "storageBlobPageSplit f fileSize = Some (Inr ps)"
    and "pageUploadFromSource env sbu f fileSize = Some (res, cs)"
  shows "\<exists>done. mset done = mset ps \<and>
           res = (case List.map_filter (page_outcome sbu fileSize) done of
                    [] \<Rightarrow> None
                  | e # rest \<Rightarrow> Some (ErrorWhileUploading (Source sbu) e)) \<and>
           mset cs = mset (List.map_filter (page_call sbu fileSize) ps) \<and>
           (res = None) = (\<forall>p\<in>set ps. page_outcome sbu fileSize p = None)"
proof -
  obtain s where s: "pool_inv sbu fileSize ps s" "wait_over s" "cs = calls s"
      "res = (case errors s of [] \<Rightarrow> None | e # rest \<Rightarrow> Some (ErrorWhileUploading (Source sbu) e))"
    using upload_returns [OF assms(2,3)] by blast
  note w = pool_inv_wait_over [OF s(1,2)]
  let ?es = "List.map_filter (page_outcome sbu fileSize) (completed s)"
  have 1: "res = (case ?es of [] \<Rightarrow> None
                  | e # rest \<Rightarrow> Some (ErrorWhileUploading (Source sbu) e))"
    using s(4) [unfolded w(2)] .
  have "set (completed s) = set ps" using w(1) by (rule mset_eq_setD)
  then have n: "(?es = []) = (\<forall>p\<in>set ps. page_outcome sbu fileSize p = None)"
    by (simp only: map_filter_Nil_iff)
  have "(res = None) = (?es = [])" unfolding 1 by (cases ?es) simp_all
  then have 2: "(res = None) = (\<forall>p\<in>set ps. page_outcome sbu fileSize p = None)"
    using n by (rule trans)
  have 3: "mset cs = mset (List.map_filter (page_call sbu fileSize) ps)"
    unfolding s(3) by (rule w(3))
  show ?thesis
    by (rule exI [of _ "completed s"]) (intro conjI w(1) 1 2 3)
qed

end
